theory Spec2Isabelle
  imports Complex_Main "HOL-Library.Multiset"
begin

section \<open>The audio clip queue: \<open>useAudioClipQueue\<close>\<close>

text \<open>
  The hook keeps three pieces of React state (\<open>isSpeaking\<close>, \<open>currentClipKey\<close>,
  \<open>failedClips\<close>) and one ref, the session counter \<open>playSessionRef\<close>.  \<open>playClips\<close> is
  an \<open>async\<close> function with a single suspension point, the \<open>await\<close> on the promise of the
  audio element of the attempt in flight.  JavaScript runs every piece of code between two
  suspension points to completion, so the model is a deterministic machine driven by the
  events of the environment: a call of \<open>playClips\<close>, a call of \<open>stop\<close>, and the audio element
  of an attempt in flight firing \<open>onended\<close> (the promise resolves) or \<open>onerror\<close> / a rejected
  \<open>play()\<close> (the promise rejects).  State setters are applied in program order.
\<close>

record PcmClip =
  key :: string
  clip_text :: "string option"
  audioBase64 :: string
  sampleRate :: "nat option"

text \<open>
  What the environment can observe of a run, written to a history as it happens.  Every entry
  names the run (by its \<open>sessionId\<close>) and the index of the clip in the list of that run.
\<close>

datatype kind =
    Visit                 \<comment> \<open>the loop body is entered: \<open>setCurrentClipKey(clip.key)\<close>\<close>
  | Attempt nat bool      \<comment> \<open>payload decoded into the object URL, \<open>new Audio(url)\<close>, \<open>play()\<close>; muted?\<close>
  | Ended nat             \<comment> \<open>the promise of the attempt resolved: \<open>success = true\<close>\<close>
  | Errored nat           \<comment> \<open>the promise of the attempt rejected: \<open>attempts++\<close>\<close>
  | Revoke nat            \<comment> \<open>\<open>URL.revokeObjectURL(url)\<close> in the \<open>finally\<close> block\<close>
  | Failed                \<comment> \<open>\<open>setFailedClips(prev => [...prev, clip.key])\<close>\<close>

datatype event = Ev (ev_run: int) (ev_clip: nat) (ev_kind: kind)

text \<open>
  A run suspended at the \<open>await\<close>: the local variables of the invocation of \<open>playClips\<close>
  (\<open>success\<close> is false whenever the loop body runs, so it is not stored).
\<close>

record run =
  sessionId :: int
  muted :: bool
  clips :: "PcmClip list"
  retryCount :: int
  idx :: nat
  attempts :: int
  url :: nat

record queue =
  isSpeaking :: bool
  currentClipKey :: "string option"
  failedClips :: "string list"
  playSessionRef :: int
  runs :: "run list"        \<comment> \<open>the invocations of \<open>playClips\<close> waiting for their audio element\<close>
  nextUrl :: nat            \<comment> \<open>object URLs handed out so far\<close>
  trace :: "event list"     \<comment> \<open>the history, oldest entry first\<close>

definition init :: queue where
  "init = \<lparr> isSpeaking = False, currentClipKey = None, failedClips = [],
            playSessionRef = 0, runs = [], nextUrl = 0, trace = [] \<rparr>"

definition log :: "event \<Rightarrow> queue \<Rightarrow> queue" where
  "log e c = c\<lparr> trace := trace c @ [e] \<rparr>"

definition stop :: "queue \<Rightarrow> queue" where
  "stop c = c\<lparr> playSessionRef := playSessionRef c + 1, isSpeaking := False,
               currentClipKey := None \<rparr>"

text \<open>Line 34: the body of the \<open>for\<close> loop starts on clip \<open>i\<close>.\<close>

definition visit :: "int \<Rightarrow> PcmClip list \<Rightarrow> nat \<Rightarrow> queue \<Rightarrow> queue" where
  "visit sid cs i c = log (Ev sid i Visit) (c\<lparr> currentClipKey := Some (key (cs ! i)) \<rparr>)"

text \<open>Lines 59 to 62: the clip is given up.\<close>

definition fail :: "int \<Rightarrow> PcmClip list \<Rightarrow> nat \<Rightarrow> queue \<Rightarrow> queue" where
  "fail sid cs i c = log (Ev sid i Failed) (c\<lparr> failedClips := failedClips c @ [key (cs ! i)] \<rparr>)"

text \<open>
  Lines 40 to 49.  Modelled from the spec: \<open>pcm16Base64ToWavUrl\<close> (module
  \<open>@/lib/audio/pcmToWav\<close>) is not among the sources; the payload is "convertible to a playable
  audio resource", a transient object URL, so decoding hands out the next unused URL.  The
  executor of the promise creates the audio element and calls \<open>play()\<close> at once; the
  invocation then waits.
\<close>

definition begin_attempt ::
  "int \<Rightarrow> bool \<Rightarrow> int \<Rightarrow> PcmClip list \<Rightarrow> nat \<Rightarrow> int \<Rightarrow> queue \<Rightarrow> queue" where
  "begin_attempt sid m rc cs i a c =
     c\<lparr> runs := runs c @ [\<lparr> sessionId = sid, muted = m, clips = cs, retryCount = rc,
                             idx = i, attempts = a, url = nextUrl c \<rparr>],
        nextUrl := Suc (nextUrl c),
        trace := trace c @ [Ev sid i (Attempt (nextUrl c) m)] \<rparr>"

text \<open>Lines 65 to 68, after the \<open>for\<close> loop.\<close>

definition after_loop :: "int \<Rightarrow> queue \<Rightarrow> queue" where
  "after_loop sid c =
     (if playSessionRef c = sid then c\<lparr> isSpeaking := False, currentClipKey := None \<rparr> else c)"

text \<open>
  The two loop heads of \<open>playClips\<close>: the head of the \<open>for\<close> loop at clip \<open>i\<close> (line 31) and
  the head of the \<open>while\<close> loop (line 39) with the values of \<open>attempts\<close> and \<open>success\<close>.
  \<open>run_from\<close> runs the invocation from a loop head to its next suspension or to its end.
\<close>

datatype pc = ForHead nat | WhileHead nat int bool

function run_from :: "int \<Rightarrow> bool \<Rightarrow> int \<Rightarrow> PcmClip list \<Rightarrow> pc \<Rightarrow> queue \<Rightarrow> queue" where
  "run_from sid m rc cs (ForHead i) c =
     (if i < length cs then
        (if playSessionRef c \<noteq> sid then after_loop sid c
         else run_from sid m rc cs (WhileHead i 0 False) (visit sid cs i c))
      else after_loop sid c)"
| "run_from sid m rc cs (WhileHead i a s) c =
     (if a \<le> rc \<and> \<not> s then begin_attempt sid m rc cs i a c
      else run_from sid m rc cs (ForHead (Suc i)) (if \<not> s then fail sid cs i c else c))"
  by pat_completeness auto
termination
  by (relation "measure (\<lambda>(sid, m, rc, cs, p, c).
        case p of ForHead i \<Rightarrow> 2 * (Suc (length cs) - i)
                | WhileHead i a s \<Rightarrow> 2 * (length cs - i) + 1)") auto

declare run_from.simps [simp del]

text \<open>Lines 23 to 29: the call itself, up to the first suspension.\<close>

definition playClips :: "bool \<Rightarrow> PcmClip list \<Rightarrow> int \<Rightarrow> queue \<Rightarrow> queue" where
  "playClips m cs rc c =
     (if cs = [] then c
      else let sid = playSessionRef c + 1
           in run_from sid m rc cs (ForHead 0)
                (c\<lparr> playSessionRef := sid, isSpeaking := True, failedClips := [] \<rparr>))"

text \<open>
  Lines 50 to 57: the promise of the attempt in flight of invocation \<open>r\<close> settles; \<open>ok\<close> tells
  whether it resolved.  The invocation stops waiting and resumes in the \<open>try\<close> block
  (\<open>success = true\<close>) or in the \<open>catch\<close> block (\<open>attempts++\<close>), then runs the \<open>finally\<close> block,
  which revokes the object URL of the attempt.
\<close>

definition wake :: "run \<Rightarrow> bool \<Rightarrow> queue \<Rightarrow> queue" where
  "wake r ok c =
     log (Ev (sessionId r) (idx r) (Revoke (url r)))
       (log (Ev (sessionId r) (idx r) (if ok then Ended (url r) else Errored (url r)))
          (c\<lparr> runs := remove1 r (runs c) \<rparr>))"

text \<open>
  The audio element with object URL \<open>u\<close> fires.  The invocation that owns the attempt is back
  at the head of the \<open>while\<close> loop; an audio element that belongs to no waiting invocation
  has nobody to wake.
\<close>

definition settle :: "nat \<Rightarrow> bool \<Rightarrow> queue \<Rightarrow> queue" where
  "settle u ok c =
     (case find (\<lambda>r. url r = u) (runs c) of
        None \<Rightarrow> c
      | Some r \<Rightarrow>
          run_from (sessionId r) (muted r) (retryCount r) (clips r)
            (WhileHead (idx r) (if ok then attempts r else attempts r + 1) ok) (wake r ok c))"

datatype input =
    PlayClips bool "PcmClip list" int   \<comment> \<open>\<open>playClips(clips, retryCount)\<close> of a hook with \<open>muted\<close>\<close>
  | Stop                                 \<comment> \<open>\<open>stop()\<close>\<close>
  | AudioEnded nat                       \<comment> \<open>\<open>onended\<close> of the audio element with this URL\<close>
  | AudioError nat                       \<comment> \<open>\<open>onerror\<close> of it, or its \<open>play()\<close> rejected\<close>

fun step :: "queue \<Rightarrow> input \<Rightarrow> queue" where
  "step c (PlayClips m cs rc) = playClips m cs rc c"
| "step c Stop = stop c"
| "step c (AudioEnded u) = settle u True c"
| "step c (AudioError u) = settle u False c"

definition exec :: "queue \<Rightarrow> input list \<Rightarrow> queue" where
  "exec c ins = foldl step c ins"

fun is_settle :: "input \<Rightarrow> bool" where
  "is_settle (AudioEnded u) = True"
| "is_settle (AudioError u) = True"
| "is_settle _ = False"

text \<open>Two clips and their keys, for the concrete runs below.\<close>

definition clip_a :: PcmClip where
  "clip_a = \<lparr> key = ''a'', clip_text = None, audioBase64 = ''AAAA'', sampleRate = None \<rparr>"

definition clip_b :: PcmClip where
  "clip_b = \<lparr> key = ''b'', clip_text = Some ''hello'', audioBase64 = ''AAEC'',
               sampleRate = Some 24000 \<rparr>"

definition run_a :: run where
  "run_a = \<lparr> sessionId = 1, muted = False, clips = [clip_a, clip_b], retryCount = 1,
              idx = 0, attempts = 0, url = 0 \<rparr>"

section \<open>The speaking test page: \<open>AIPracticeSpeakingTest\<close>\<close>

text \<open>
  The page is a React component.  Its state (\<open>useState\<close>) and its refs (\<open>useRef\<close>) are the
  fields of a record; every handler is a function on that record.  An event of the
  environment (a click, a timer that fires, a promise that settles) runs its handler to
  completion; React then renders and runs the effects whose dependencies changed.  State
  setters are applied in program order; an updater function passed to a setter is run by
  React while it renders, after the handler has returned.

  The model holds what the claims are about: the phase, the countdown and its interval
  timer, the delayed callbacks that change the phase, the recordings of the parts and the
  evaluation request.  The voice channel (\<open>useGeminiSpeaking\<close>), the microphone and the
  \<open>FileReader\<close> are the environment: a transcript, an audio fragment, a recorder that has
  started and an encoded payload arrive as events.
\<close>

datatype TestPhase =
    connecting | identity_check
  | part1_intro | part1_questions | part1_question_recording
  | part2_intro | part2_prep | part2_speaking
  | part3_intro | part3_questions | part3_question_recording
  | submitting | done_phase

text \<open>Lines 41 to 48.\<close>

definition part1_questionTime :: int where "part1_questionTime = 30"
definition part2_prepTime :: int where "part2_prepTime = 60"
definition part2_speakTime :: int where "part2_speakTime = 120"
definition part3_questionTime :: int where "part3_questionTime = 45"

definition PART2_MIN_SPEAKING_SECONDS :: real where
  "PART2_MIN_SPEAKING_SECONDS = 80"

text \<open>
  Lines 65 to 73.  A \<open>Blob\<close> is a number.  Times are milliseconds as \<open>Date.now()\<close> gives
  them; \<open>speakingDuration\<close> is a quotient of such a difference by 1000, a JavaScript number,
  here a real.
\<close>

record PartRecording =
  partNumber :: nat
  chunks :: "nat list"
  startTime :: int
  transcript :: string
  speakingDuration :: "real option"
  audioBase64 :: "string option"
  duration :: "int option"

type_synonym recordings = "nat \<Rightarrow> PartRecording option"

definition new_recording :: "nat \<Rightarrow> int \<Rightarrow> PartRecording" where
  "new_recording n now = \<lparr> partNumber = n, chunks = [], startTime = now, transcript = [],
     speakingDuration = None, audioBase64 = None, duration = None \<rparr>"

text \<open>
  \<open>{...prev, [n]: {...prev[n], ...}}\<close> on an entry that exists.  The handlers that use it
  without a test (lines 240, 340, 427 and 556) run for a part whose entry was written before
  and entries are never removed; on a missing entry the model leaves the map as it is.
\<close>

definition update_part :: "nat \<Rightarrow> (PartRecording \<Rightarrow> PartRecording) \<Rightarrow> recordings \<Rightarrow> recordings" where
  "update_part n f recs = (case recs n of None \<Rightarrow> recs | Some r \<Rightarrow> recs(n \<mapsto> f r))"

record toast =
  title :: string
  description :: string
  destructive :: bool

record partAudio =
  pa_partNumber :: nat
  pa_audioBase64 :: string
  pa_duration :: int

text \<open>The body of the request to \<open>evaluate-ai-speaking\<close>, lines 609 to 617.\<close>

record submission =
  sub_testId :: string
  sub_partAudios :: "partAudio list"
  sub_transcripts :: "(nat \<times> string) list"
  sub_topic :: "string option"
  sub_difficulty :: "string option"
  sub_part2SpeakingDuration :: real
  sub_fluencyFlag :: bool

text \<open>
  The callbacks handed to \<open>setTimeout\<close>, and the rest of \<open>handleCompleteTest\<close> behind its
  two-second wait, with the \<open>partRecordings\<close> of the render in which the handler was
  created.
\<close>

datatype delayed =
    BeginPart1Questions                  \<comment> \<open>line 389, after 2000 ms\<close>
  | BeginPart2Prep                       \<comment> \<open>line 456, after 4000 ms\<close>
  | BeginPart2Recording                  \<comment> \<open>lines 311 and 471, after 2500 ms\<close>
  | CallTransitionToPart3                \<comment> \<open>line 346, after 2500 ms\<close>
  | BeginPart3Questions                  \<comment> \<open>line 269, after 3000 ms\<close>
  | ContinueCompleteTest recordings      \<comment> \<open>line 583, after 2000 ms\<close>

text \<open>
  An interval timer of the environment: its id and the \<open>phase\<close> that the \<open>handleTimeUp\<close> of
  its callback was created with.
\<close>

record timer =
  tid :: nat
  seen_phase :: TestPhase

record ctrl =
  testId :: string
  test_topic :: "string option"
  test_difficulty :: "string option"
  showStartOverlay :: bool
  phase :: TestPhase
  currentPart :: nat
  timeLeft :: int
  totalTestTime :: int
  isRecording :: bool
  partRecordings :: recordings
  audioChunksRef :: "nat list"
  timerRef :: "nat option"
  part2SpeakingStartRef :: int
  intervals :: "timer list"                \<comment> \<open>\<open>setInterval\<close> timers that have not been cleared\<close>
  nextInterval :: nat                      \<comment> \<open>the id that \<open>setInterval\<close> returns next\<close>
  effectDeps :: "int \<times> TestPhase"           \<comment> \<open>\<open>[timeLeft, phase]\<close> when the timer effect last ran\<close>
  effectCleanup :: bool                    \<comment> \<open>whether that run returned a cleanup function\<close>
  pending :: "delayed list"                \<comment> \<open>\<open>setTimeout\<close> callbacks that have not run\<close>
  awaiting :: nat                          \<comment> \<open>evaluation requests that have not settled\<close>
  requests :: "submission list"            \<comment> \<open>the requests sent\<close>
  toasts :: "toast list"
  navigated :: "string option"             \<comment> \<open>the route the page has left for\<close>
  timeUps :: "TestPhase list"              \<comment> \<open>the calls of \<open>handleTimeUp\<close>, with its \<open>phase\<close>\<close>

text \<open>The component after its first render, with the test loaded.\<close>

definition cinit :: "string \<Rightarrow> string option \<Rightarrow> string option \<Rightarrow> ctrl" where
  "cinit test_id tp df = \<lparr> testId = test_id, test_topic = tp, test_difficulty = df,
     showStartOverlay = True, phase = connecting, currentPart = 1, timeLeft = 0,
     totalTestTime = 0, isRecording = False, partRecordings = Map.empty,
     audioChunksRef = [], timerRef = None, part2SpeakingStartRef = 0,
     intervals = [], nextInterval = 1, effectDeps = (0, connecting), effectCleanup = False,
     pending = [], awaiting = 0, requests = [], toasts = [], navigated = None,
     timeUps = [] \<rparr>"

subsection \<open>The timer effect, lines 189 to 207\<close>

text \<open>\<open>clearInterval(id)\<close>.\<close>

definition clearInterval :: "nat \<Rightarrow> ctrl \<Rightarrow> ctrl" where
  "clearInterval i s = s\<lparr> intervals := filter (\<lambda>t. tid t \<noteq> i) (intervals s) \<rparr>"

text \<open>The cleanup function of line 204; it reads \<open>timerRef.current\<close> when it runs.\<close>

definition timer_cleanup :: "ctrl \<Rightarrow> ctrl" where
  "timer_cleanup s = (case timerRef s of None \<Rightarrow> s | Some i \<Rightarrow> clearInterval i s)"

text \<open>
  The effect function: no timer when \<open>timeLeft <= 0\<close>; otherwise \<open>setInterval\<close> hands out a new
  id, stored in \<open>timerRef\<close>, and the effect returns the cleanup function.
\<close>

definition timer_effect :: "ctrl \<Rightarrow> ctrl" where
  "timer_effect s =
     (if timeLeft s \<le> 0 then s\<lparr> effectCleanup := False \<rparr>
      else s\<lparr> timerRef := Some (nextInterval s),
              intervals := intervals s @ [\<lparr> tid = nextInterval s, seen_phase = phase s \<rparr>],
              nextInterval := Suc (nextInterval s),
              effectCleanup := True \<rparr>)"

text \<open>
  What React does after a render: when a dependency of the effect changed, it runs the
  cleanup function of the last run (if that run returned one) and then the effect.
\<close>

definition commit :: "ctrl \<Rightarrow> ctrl" where
  "commit s =
     (if effectDeps s = (timeLeft s, phase s) then s
      else timer_effect
             ((if effectCleanup s then timer_cleanup s else s)
                \<lparr> effectDeps := (timeLeft s, phase s) \<rparr>))"

text \<open>Leaving the page unmounts the component: React runs the cleanup function.\<close>

definition navigate :: "string \<Rightarrow> ctrl \<Rightarrow> ctrl" where
  "navigate route s =
     (if effectCleanup s then timer_cleanup s else s)
       \<lparr> effectCleanup := False, navigated := Some route \<rparr>"

subsection \<open>The handlers\<close>

definition setTimeout :: "delayed \<Rightarrow> ctrl \<Rightarrow> ctrl" where
  "setTimeout d s = s\<lparr> pending := pending s @ [d] \<rparr>"

text \<open>Lines 291 to 362; the recorder and the voice channel are not part of the state.\<close>

fun handleTimeUp :: "TestPhase \<Rightarrow> int \<Rightarrow> ctrl \<Rightarrow> ctrl" where
  "handleTimeUp part1_question_recording now s =
     s\<lparr> isRecording := False, phase := part1_questions \<rparr>"
| "handleTimeUp part2_prep now s =
     setTimeout BeginPart2Recording
       (s\<lparr> phase := part2_speaking, timeLeft := part2_speakTime,
           part2SpeakingStartRef := now \<rparr>)"
| "handleTimeUp part2_speaking now s =
     setTimeout CallTransitionToPart3
       (s\<lparr> isRecording := False,
           partRecordings := update_part 2
             (\<lambda>r. r\<lparr> speakingDuration :=
                Some (real_of_int (now - part2SpeakingStartRef s) / 1000) \<rparr>)
             (partRecordings s) \<rparr>)"
| "handleTimeUp part3_question_recording now s =
     s\<lparr> isRecording := False, phase := part3_questions \<rparr>"
| "handleTimeUp _ now s = s"

text \<open>
  Lines 193 to 202, the callback of the interval timer.  The updater of \<open>setTimeLeft\<close> calls
  \<open>handleTimeUp\<close> and returns 0; \<open>handleTimeUp\<close> may itself call \<open>setTimeLeft\<close>.  React runs
  the updater while rendering, so the value set by \<open>handleTimeUp\<close> comes after the 0; when
  React runs the updater at the call instead, the 0 comes last.  \<open>early\<close> tells which.
\<close>

definition tick :: "timer \<Rightarrow> bool \<Rightarrow> int \<Rightarrow> ctrl \<Rightarrow> ctrl" where
  "tick t early now s =
     (let s1 =
        (if timeLeft s \<le> 1 then
           (let h = \<lambda>x. (handleTimeUp (seen_phase t) now x)
                          \<lparr> timeUps := timeUps x @ [seen_phase t] \<rparr>
            in if early then (h s)\<lparr> timeLeft := 0 \<rparr> else h (s\<lparr> timeLeft := 0 \<rparr>))
         else s\<lparr> timeLeft := timeLeft s - 1 \<rparr>)
      in s1\<lparr> totalTestTime := totalTestTime s1 + 1 \<rparr>)"

text \<open>Lines 365 to 368 and 144 to 148.\<close>

definition startIdentityCheck :: "ctrl \<Rightarrow> ctrl" where
  "startIdentityCheck s = s\<lparr> phase := identity_check \<rparr>"

definition onConnectionChange :: "bool \<Rightarrow> ctrl \<Rightarrow> ctrl" where
  "onConnectionChange is_connected s =
     (if is_connected \<and> phase s = connecting then startIdentityCheck s else s)"

text \<open>Lines 640 to 655; a failed \<open>connect()\<close> shows a toast.\<close>

definition handleStartTest :: "ctrl \<Rightarrow> ctrl" where
  "handleStartTest s = s\<lparr> showStartOverlay := False, phase := connecting \<rparr>"

definition connectFailed :: "ctrl \<Rightarrow> ctrl" where
  "connectFailed s = s\<lparr> toasts := toasts s @ [\<lparr> title = ''Connection Failed'',
     description = ''Could not connect to AI examiner'', destructive = True \<rparr>] \<rparr>"

text \<open>Lines 371 to 408.\<close>

definition startPart1 :: "int \<Rightarrow> ctrl \<Rightarrow> ctrl" where
  "startPart1 now s =
     setTimeout BeginPart1Questions
       (s\<lparr> phase := part1_intro, currentPart := 1,
           partRecordings := (partRecordings s)(1 \<mapsto> new_recording 1 now),
           audioChunksRef := [] \<rparr>)"

text \<open>Lines 411 to 460.\<close>

definition transitionToPart2 :: "int \<Rightarrow> ctrl \<Rightarrow> ctrl" where
  "transitionToPart2 now s =
     setTimeout BeginPart2Prep
       (s\<lparr> isRecording := False, phase := part2_intro, currentPart := 2,
           partRecordings := (partRecordings s)(2 \<mapsto> new_recording 2 now),
           audioChunksRef := [] \<rparr>)"

text \<open>Lines 463 to 488.\<close>

definition startPart2Speaking :: "int \<Rightarrow> ctrl \<Rightarrow> ctrl" where
  "startPart2Speaking now s =
     setTimeout BeginPart2Recording
       (s\<lparr> phase := part2_speaking, timeLeft := part2_speakTime,
           part2SpeakingStartRef := now \<rparr>)"

text \<open>
  Lines 210 to 288.  The updater of line 219 reads \<open>audioChunksRef.current\<close> when React runs
  it: after line 265 has emptied the ref, unless React runs the updater at the call
  (\<open>early\<close>).
\<close>

definition transitionToPart3 :: "bool \<Rightarrow> int \<Rightarrow> ctrl \<Rightarrow> ctrl" where
  "transitionToPart3 early now s =
     setTimeout BeginPart3Questions
       (s\<lparr> isRecording := False, phase := part3_intro, currentPart := 3,
           partRecordings :=
             (update_part 2
                (\<lambda>r. r\<lparr> chunks := chunks r @ (if early then audioChunksRef s else []) \<rparr>)
                (partRecordings s))(3 \<mapsto> new_recording 3 now),
           audioChunksRef := [] \<rparr>)"

text \<open>Lines 519 to 541.\<close>

definition stopRecording :: "ctrl \<Rightarrow> ctrl" where
  "stopRecording s =
     s\<lparr> isRecording := False,
         partRecordings := update_part (currentPart s)
           (\<lambda>r. r\<lparr> chunks := chunks r @ audioChunksRef s \<rparr>) (partRecordings s) \<rparr>"

text \<open>Lines 114 to 131, the callback \<open>onUserTranscript\<close>.\<close>

definition onUserTranscript :: "string \<Rightarrow> bool \<Rightarrow> ctrl \<Rightarrow> ctrl" where
  "onUserTranscript txt isFinal s =
     (if isFinal \<and> txt \<noteq> [] then
        s\<lparr> partRecordings := update_part (currentPart s)
              (\<lambda>r. r\<lparr> transcript := transcript r @ '' '' @ txt \<rparr>) (partRecordings s) \<rparr>
      else s)"

text \<open>The callback \<open>ondataavailable\<close> of a recorder (lines 275, 315, 395, 475 and 496).\<close>

definition ondataavailable :: "nat \<Rightarrow> nat \<Rightarrow> ctrl \<Rightarrow> ctrl" where
  "ondataavailable blob bytes s =
     (if 0 < bytes then s\<lparr> audioChunksRef := audioChunksRef s @ [blob] \<rparr> else s)"

text \<open>
  The callback \<open>onloadend\<close> of a \<open>FileReader\<close> (lines 238, 425 and 552) for part \<open>n\<close>, with the
  \<open>startTime\<close> of the recording it was started for.
\<close>

definition onloadend :: "nat \<Rightarrow> string \<Rightarrow> int \<Rightarrow> int \<Rightarrow> ctrl \<Rightarrow> ctrl" where
  "onloadend n base64 started now s =
     s\<lparr> partRecordings := update_part n
           (\<lambda>r. r\<lparr> audioBase64 := Some base64, duration := Some ((now - started) div 1000) \<rparr>)
           (partRecordings s) \<rparr>"

text \<open>
  A recorder has started (\<open>setIsRecording(true)\<close>, lines 282, 322, 402, 482 and 504), or
  starting it has failed.  Only the \<open>catch\<close> block of \<open>startRecording\<close> (lines 508 to 515) shows
  a toast; those of the four \<open>setTimeout\<close> callbacks (lines 284, 324, 404 and 484) write to
  the console and leave the state as it is.
\<close>

definition recorderStarted :: "ctrl \<Rightarrow> ctrl" where
  "recorderStarted s = s\<lparr> isRecording := True \<rparr>"

definition microphoneError :: "bool \<Rightarrow> ctrl \<Rightarrow> ctrl" where
  "microphoneError fromStartRecording s =
     (if fromStartRecording
      then s\<lparr> toasts := toasts s @ [\<lparr> title = ''Microphone Error'',
             description = ''Could not access microphone'', destructive = True \<rparr>] \<rparr>
      else s)"

subsection \<open>Completing the test, lines 575 to 637\<close>

text \<open>
  \<open>Object.values\<close> and \<open>Object.entries\<close> of \<open>partRecordings\<close>: the keys in ascending order.
  Only the keys 1, 2 and 3 are ever written.
\<close>

definition object_entries :: "recordings \<Rightarrow> (nat \<times> PartRecording) list" where
  "object_entries recs =
     List.map_filter (\<lambda>k. case recs k of None \<Rightarrow> None | Some r \<Rightarrow> Some (k, r)) [1, 2, 3]"

text \<open>\<open>x || ''\<close> and \<open>x || 0\<close>: the default replaces a missing value.\<close>

definition or_default :: "'a option \<Rightarrow> 'a \<Rightarrow> 'a" where
  "or_default x d = (case x of None \<Rightarrow> d | Some v \<Rightarrow> v)"

text \<open>Lines 599 and 600: \<open>partRecordings[2]?.speakingDuration || 0\<close>.\<close>

definition part2SpeakingDuration :: "recordings \<Rightarrow> real" where
  "part2SpeakingDuration recs =
     (case recs 2 of None \<Rightarrow> 0 | Some r \<Rightarrow> or_default (speakingDuration r) 0)"

text \<open>Line 601.\<close>

definition fluencyFlag :: "recordings \<Rightarrow> bool" where
  "fluencyFlag recs \<longleftrightarrow> part2SpeakingDuration recs < PART2_MIN_SPEAKING_SECONDS"

text \<open>Lines 588 to 617: the request, built from the \<open>partRecordings\<close> the handler holds.\<close>

definition assemble :: "ctrl \<Rightarrow> recordings \<Rightarrow> submission" where
  "assemble s recs =
     \<lparr> sub_testId = testId s,
       sub_partAudios =
         filter (\<lambda>p. pa_audioBase64 p \<noteq> [])
           (map (\<lambda>(k, r). \<lparr> pa_partNumber = partNumber r,
                            pa_audioBase64 = or_default (audioBase64 r) [],
                            pa_duration = or_default (duration r) 0 \<rparr>)
              (object_entries recs)),
       sub_transcripts = map (\<lambda>(k, r). (k, transcript r)) (object_entries recs),
       sub_topic = test_topic s,
       sub_difficulty = test_difficulty s,
       sub_part2SpeakingDuration = part2SpeakingDuration recs,
       sub_fluencyFlag = fluencyFlag recs \<rparr>"

text \<open>
  Lines 576 to 583: the part of \<open>handleCompleteTest\<close> before the wait.  The rest of the
  handler keeps the \<open>partRecordings\<close> of the render in which it was created.
\<close>

definition handleCompleteTest :: "ctrl \<Rightarrow> ctrl" where
  "handleCompleteTest s =
     setTimeout (ContinueCompleteTest (partRecordings s))
       ((stopRecording s)\<lparr> phase := submitting \<rparr>)"

text \<open>Lines 584 to 618: the request is sent.\<close>

definition continueCompleteTest :: "recordings \<Rightarrow> ctrl \<Rightarrow> ctrl" where
  "continueCompleteTest recs s =
     s\<lparr> requests := requests s @ [assemble s recs], awaiting := Suc (awaiting s) \<rparr>"

text \<open>Lines 620 to 627: the request succeeded.\<close>

definition submissionSucceeded :: "ctrl \<Rightarrow> ctrl" where
  "submissionSucceeded s =
     navigate (''/ai-practice/speaking/results/'' @ testId s)
       (s\<lparr> toasts := toasts s @ [\<lparr> title = ''Test Submitted'',
            description = ''Your speaking test is being evaluated'', destructive = False \<rparr>] \<rparr>)"

text \<open>Lines 628 to 636: the request failed, or \<open>invoke\<close> threw.\<close>

definition submissionFailed :: "ctrl \<Rightarrow> ctrl" where
  "submissionFailed s =
     s\<lparr> toasts := toasts s @ [\<lparr> title = ''Submission Failed'',
            description = ''Please try again'', destructive = True \<rparr>],
         phase := part3_questions \<rparr>"

subsection \<open>The events\<close>

datatype cevent =
    StartTest                         \<comment> \<open>the start overlay, line 721\<close>
  | ConnectFailed
  | ConnectionChange bool
  | ClickStartPart1 int               \<comment> \<open>line 1064; the argument is \<open>Date.now()\<close>\<close>
  | ClickNextPart2 int                \<comment> \<open>line 1086\<close>
  | ClickReady int                    \<comment> \<open>line 1035\<close>
  | ClickPauseResume                  \<comment> \<open>lines 1080 and 1103\<close>
  | ClickComplete                     \<comment> \<open>lines 925 and 1109\<close>
  | Timeout nat bool int              \<comment> \<open>the pending \<open>setTimeout\<close> callback at this position runs\<close>
  | Tick nat bool int                 \<comment> \<open>the interval timer with this id fires\<close>
  | UserTranscript string bool
  | DataAvailable nat nat
  | ReaderLoaded nat string int int
  | RecorderStarted
  | MicrophoneRefused bool            \<comment> \<open>true: in \<open>startRecording\<close>; false: in a \<open>setTimeout\<close> callback\<close>
  | SubmissionSettled bool            \<comment> \<open>the evaluation request settles; true: no error\<close>

fun run_delayed :: "delayed \<Rightarrow> bool \<Rightarrow> int \<Rightarrow> ctrl \<Rightarrow> ctrl" where
  "run_delayed BeginPart1Questions early now s = s\<lparr> phase := part1_questions \<rparr>"
| "run_delayed BeginPart2Prep early now s =
     s\<lparr> phase := part2_prep, timeLeft := part2_prepTime \<rparr>"
| "run_delayed BeginPart2Recording early now s = s"
| "run_delayed CallTransitionToPart3 early now s = transitionToPart3 early now s"
| "run_delayed BeginPart3Questions early now s = s\<lparr> phase := part3_questions \<rparr>"
| "run_delayed (ContinueCompleteTest recs) early now s = continueCompleteTest recs s"

text \<open>
  The handler of an event.  A button can be clicked where the page shows it; a callback of
  \<open>setTimeout\<close> runs once, if it is pending; an interval timer fires while it has not been
  cleared; a request settles while one is awaited.  With no recorder running the button of
  lines 1080 and 1103 calls \<open>startRecording\<close>, which changes nothing before the microphone
  answers (\<open>RecorderStarted\<close> or \<open>MicrophoneRefused True\<close>).
\<close>

fun handle :: "cevent \<Rightarrow> ctrl \<Rightarrow> ctrl" where
  "handle StartTest s = (if showStartOverlay s then handleStartTest s else s)"
| "handle ConnectFailed s = connectFailed s"
| "handle (ConnectionChange b) s = onConnectionChange b s"
| "handle (ClickStartPart1 now) s =
     (if \<not> showStartOverlay s \<and> phase s = identity_check then startPart1 now s else s)"
| "handle (ClickNextPart2 now) s =
     (if \<not> showStartOverlay s \<and> phase s \<in> {part1_intro, part1_questions}
      then transitionToPart2 now s else s)"
| "handle (ClickReady now) s =
     (if \<not> showStartOverlay s \<and> phase s = part2_prep then startPart2Speaking now s else s)"
| "handle ClickPauseResume s =
     (if \<not> showStartOverlay s \<and>
         phase s \<in> {part1_intro, part1_questions, part3_intro, part3_questions}
         \<and> isRecording s
      then stopRecording s else s)"
| "handle ClickComplete s =
     (if \<not> showStartOverlay s \<and> phase s \<noteq> submitting then handleCompleteTest s else s)"
| "handle (Timeout k early now) s =
     (if k < length (pending s)
      then run_delayed (pending s ! k) early now
             (s\<lparr> pending := take k (pending s) @ drop (Suc k) (pending s) \<rparr>)
      else s)"
| "handle (Tick i early now) s =
     (case find (\<lambda>t. tid t = i) (intervals s) of
        None \<Rightarrow> s
      | Some t \<Rightarrow> tick t early now s)"
| "handle (UserTranscript txt isFinal) s = onUserTranscript txt isFinal s"
| "handle (DataAvailable blob bytes) s = ondataavailable blob bytes s"
| "handle (ReaderLoaded n base64 started now) s = onloadend n base64 started now s"
| "handle RecorderStarted s = recorderStarted s"
| "handle (MicrophoneRefused b) s = microphoneError b s"
| "handle (SubmissionSettled ok) s =
     (if awaiting s = 0 then s
      else if ok then submissionSucceeded (s\<lparr> awaiting := awaiting s - 1 \<rparr>)
      else submissionFailed (s\<lparr> awaiting := awaiting s - 1 \<rparr>))"

text \<open>
  An event: its handler runs, React renders and commits.  A page that has been left is
  gone: nothing is rendered any more.
\<close>

definition cstep :: "ctrl \<Rightarrow> cevent \<Rightarrow> ctrl" where
  "cstep s e =
     (if navigated s \<noteq> None then s
      else let s1 = handle e s in if navigated s1 \<noteq> None then s1 else commit s1)"

definition cexec :: "ctrl \<Rightarrow> cevent list \<Rightarrow> ctrl" where
  "cexec s es = foldl cstep s es"

section \<open>Invariants\<close>

subsection \<open>Invariants of the queue\<close>

text \<open>
  Object URLs are numbered in the order in which they are created. Every URL created so far is
  either held by a waiting invocation or has been revoked, and none is in both groups or
  twice in one of them.
\<close>

definition dec_of :: "event \<Rightarrow> nat list" where
  "dec_of e = (case ev_kind e of Attempt u m \<Rightarrow> [u] | _ \<Rightarrow> [])"

definition rev_of :: "event \<Rightarrow> nat list" where
  "rev_of e = (case ev_kind e of Revoke u \<Rightarrow> [u] | _ \<Rightarrow> [])"

definition decoded :: "event list \<Rightarrow> nat list" where
  "decoded tr = concat (map dec_of tr)"

definition revoked :: "event list \<Rightarrow> nat list" where
  "revoked tr = concat (map rev_of tr)"

definition inflight :: "queue \<Rightarrow> nat list" where
  "inflight c = map url (runs c)"

definition inv_url :: "queue \<Rightarrow> bool" where
  "inv_url c \<longleftrightarrow> decoded (trace c) = [0..<nextUrl c] \<and>
     mset (revoked (trace c)) + mset (inflight c) = mset [0..<nextUrl c]"

text \<open>
  No invocation and no entry of the trace is ahead of the session counter, two waiting
  invocations never share a session, and the entries of a waiting invocation concern the
  clips up to the one it is playing.
\<close>

definition inv_sess :: "queue \<Rightarrow> bool" where
  "inv_sess c \<longleftrightarrow>
     (\<forall>r\<in>set (runs c). sessionId r \<le> playSessionRef c) \<and>
     distinct (map sessionId (runs c)) \<and>
     (\<forall>e\<in>set (trace c). ev_run e \<le> playSessionRef c)"

definition inv_pos :: "queue \<Rightarrow> bool" where
  "inv_pos c \<longleftrightarrow>
     (\<forall>r\<in>set (runs c). idx r < length (clips r) \<and>
        (\<forall>e\<in>set (trace c). ev_run e = sessionId r \<longrightarrow> ev_clip e \<le> idx r))"

text \<open>
  The same facts for the invocation that is executing, at the head of its \<open>for\<close> loop or of
  its \<open>while\<close> loop.
\<close>

definition at_pc :: "int \<Rightarrow> PcmClip list \<Rightarrow> pc \<Rightarrow> queue \<Rightarrow> bool" where
  "at_pc sid cs p c \<longleftrightarrow>
     (case p of
        ForHead i \<Rightarrow> (\<forall>e\<in>set (trace c). ev_run e = sid \<longrightarrow> ev_clip e < i)
      | WhileHead i a s \<Rightarrow>
          i < length cs \<and> (\<forall>e\<in>set (trace c). ev_run e = sid \<longrightarrow> ev_clip e \<le> i))"

definition running :: "int \<Rightarrow> PcmClip list \<Rightarrow> pc \<Rightarrow> queue \<Rightarrow> bool" where
  "running sid cs p c \<longleftrightarrow>
     inv_sess c \<and> inv_pos c \<and> sid \<le> playSessionRef c \<and>
     (\<forall>r\<in>set (runs c). sessionId r \<noteq> sid) \<and> at_pc sid cs p c"

definition ginv :: "queue \<Rightarrow> bool" where
  "ginv c \<longleftrightarrow> inv_sess c \<and> inv_pos c"

text \<open>
  A superseded invocation that has reached clip \<open>i\<close> stays there.
\<close>

definition stale :: "int \<Rightarrow> nat \<Rightarrow> queue \<Rightarrow> bool" where
  "stale sid i c \<longleftrightarrow>
     sid < playSessionRef c \<and>
     (\<forall>e\<in>set (trace c). ev_run e = sid \<longrightarrow> ev_clip e \<le> i) \<and>
     (\<forall>r\<in>set (runs c). sessionId r = sid \<longrightarrow> idx r \<le> i)"

definition stale_at :: "int \<Rightarrow> nat \<Rightarrow> int \<Rightarrow> pc \<Rightarrow> queue \<Rightarrow> bool" where
  "stale_at sid i sid' p c \<longleftrightarrow>
     stale sid i c \<and>
     (sid' = sid \<longrightarrow> (case p of WhileHead j a s \<Rightarrow> j \<le> i | ForHead j \<Rightarrow> True))"

text \<open>
  The order of the entries of one run: an attempt is started, it settles, its URL is
  revoked, and only then a clip is given up, the next clip is visited or the next attempt
  is started.
\<close>

datatype stage = Idle | Playing nat | Settled nat

fun follows :: "stage \<Rightarrow> kind \<Rightarrow> stage option" where
  "follows Idle Visit = Some Idle"
| "follows Idle (Attempt u m) = Some (Playing u)"
| "follows (Playing u) (Ended v) = (if u = v then Some (Settled u) else None)"
| "follows (Playing u) (Errored v) = (if u = v then Some (Settled u) else None)"
| "follows (Settled u) (Revoke v) = (if u = v then Some Idle else None)"
| "follows Idle Failed = Some Idle"
| "follows _ _ = None"

fun accepts :: "stage \<Rightarrow> kind list \<Rightarrow> stage option" where
  "accepts s [] = Some s"
| "accepts s (k # ks) = (case follows s k of None \<Rightarrow> None | Some s' \<Rightarrow> accepts s' ks)"

definition ptrace :: "int \<Rightarrow> event list \<Rightarrow> event list" where
  "ptrace sid tr = filter (\<lambda>e. ev_run e = sid) tr"

definition pruns :: "int \<Rightarrow> queue \<Rightarrow> run list" where
  "pruns sid c = filter (\<lambda>r. sessionId r = sid) (runs c)"

definition visited :: "int \<Rightarrow> event list \<Rightarrow> nat list" where
  "visited sid tr = map ev_clip (filter (\<lambda>e. ev_kind e = Visit) (ptrace sid tr))"

definition prog :: "PcmClip list \<Rightarrow> event list \<Rightarrow> nat \<Rightarrow> stage \<Rightarrow> bool" where
  "prog cs T n st \<longleftrightarrow>
     map ev_clip (filter (\<lambda>e. ev_kind e = Visit) T) = [0..<n] \<and> n \<le> length cs \<and>
     (\<forall>e\<in>set T. ev_clip e < n) \<and> sorted (map ev_clip T) \<and>
     accepts Idle (map ev_kind T) = Some st"

definition shape :: "int \<Rightarrow> PcmClip list \<Rightarrow> queue \<Rightarrow> bool" where
  "shape sid cs c \<longleftrightarrow>
     sid \<le> playSessionRef c \<and>
     (case pruns sid c of
        [] \<Rightarrow> (\<exists>n. prog cs (ptrace sid (trace c)) n Idle \<and>
                  (playSessionRef c = sid \<longrightarrow> n = length cs))
      | [r] \<Rightarrow> prog cs (ptrace sid (trace c)) (Suc (idx r)) (Playing (url r)) \<and> clips r = cs
      | _ \<Rightarrow> False)"

definition shape_at :: "int \<Rightarrow> PcmClip list \<Rightarrow> pc \<Rightarrow> queue \<Rightarrow> bool" where
  "shape_at sid cs p c \<longleftrightarrow>
     sid \<le> playSessionRef c \<and> pruns sid c = [] \<and>
     (case p of
        ForHead i \<Rightarrow> prog cs (ptrace sid (trace c)) i Idle
      | WhileHead i a s \<Rightarrow> prog cs (ptrace sid (trace c)) (Suc i) Idle)"

text \<open>
  Two states that a given invocation cannot tell apart.
\<close>

definition same_view :: "int \<Rightarrow> queue \<Rightarrow> queue \<Rightarrow> bool" where
  "same_view sid c c' \<longleftrightarrow>
     ptrace sid (trace c') = ptrace sid (trace c) \<and> pruns sid c' = pruns sid c \<and>
     playSessionRef c' = playSessionRef c \<and>
     (\<forall>r\<in>set (runs c'). sessionId r \<noteq> sid \<or> r \<in> set (runs c))"

text \<open>
  The entries of one clip of one invocation, counted by kind.
\<close>

fun is_attempt :: "kind \<Rightarrow> bool" where
  "is_attempt (Attempt u m) = True"
| "is_attempt _ = False"

fun is_errored :: "kind \<Rightarrow> bool" where
  "is_errored (Errored u) = True"
| "is_errored _ = False"

fun is_ended :: "kind \<Rightarrow> bool" where
  "is_ended (Ended u) = True"
| "is_ended _ = False"

fun is_failed :: "kind \<Rightarrow> bool" where
  "is_failed Failed = True"
| "is_failed _ = False"

definition cnt :: "(kind \<Rightarrow> bool) \<Rightarrow> int \<Rightarrow> nat \<Rightarrow> event list \<Rightarrow> nat" where
  "cnt K sid i tr = length (filter (\<lambda>e. ev_run e = sid \<and> ev_clip e = i \<and> K (ev_kind e)) tr)"

definition n_attempts :: "int \<Rightarrow> nat \<Rightarrow> event list \<Rightarrow> nat" where
  "n_attempts = cnt is_attempt"

definition n_errors :: "int \<Rightarrow> nat \<Rightarrow> event list \<Rightarrow> nat" where
  "n_errors = cnt is_errored"

definition n_ended :: "int \<Rightarrow> nat \<Rightarrow> event list \<Rightarrow> nat" where
  "n_ended = cnt is_ended"

definition n_failed :: "int \<Rightarrow> nat \<Rightarrow> event list \<Rightarrow> nat" where
  "n_failed = cnt is_failed"

text \<open>
  The counts of a clip the invocation has left (\<open>finished\<close>), of the clip at the head of the
  \<open>while\<close> loop (\<open>current\<close>) and of the clip whose audio is playing (\<open>playing\<close>).
\<close>

definition finished :: "int \<Rightarrow> int \<Rightarrow> event list \<Rightarrow> nat \<Rightarrow> bool" where
  "finished rc sid tr j \<longleftrightarrow>
     n_attempts sid j tr = n_errors sid j tr + n_ended sid j tr \<and>
     n_ended sid j tr + n_failed sid j tr = 1 \<and>
     int (n_attempts sid j tr) \<le> max 0 (rc + 1) \<and>
     (n_failed sid j tr = 1 \<longrightarrow> int (n_errors sid j tr) = max 0 (rc + 1))"

definition current :: "int \<Rightarrow> int \<Rightarrow> event list \<Rightarrow> nat \<Rightarrow> int \<Rightarrow> bool \<Rightarrow> bool" where
  "current rc sid tr i a s \<longleftrightarrow>
     int (n_errors sid i tr) = a \<and> n_ended sid i tr = (if s then 1 else 0) \<and>
     n_failed sid i tr = 0 \<and> n_attempts sid i tr = n_errors sid i tr + n_ended sid i tr \<and>
     a \<le> max 0 (rc + 1) \<and> (s \<longrightarrow> a \<le> rc)"

definition playing :: "int \<Rightarrow> int \<Rightarrow> event list \<Rightarrow> nat \<Rightarrow> int \<Rightarrow> bool" where
  "playing rc sid tr i a \<longleftrightarrow>
     int (n_errors sid i tr) = a \<and> n_ended sid i tr = 0 \<and> n_failed sid i tr = 0 \<and>
     n_attempts sid i tr = Suc (n_errors sid i tr) \<and> a \<le> rc"

definition below :: "int \<Rightarrow> event list \<Rightarrow> nat \<Rightarrow> bool" where
  "below sid tr n \<longleftrightarrow> (\<forall>e\<in>set tr. ev_run e = sid \<longrightarrow> ev_clip e < n)"

definition tally :: "int \<Rightarrow> int \<Rightarrow> queue \<Rightarrow> bool" where
  "tally sid rc c \<longleftrightarrow>
     sid \<le> playSessionRef c \<and>
     (case pruns sid c of
        [] \<Rightarrow> (\<exists>n. (\<forall>j<n. finished rc sid (trace c) j) \<and> below sid (trace c) n)
      | [r] \<Rightarrow> (\<forall>j<idx r. finished rc sid (trace c) j) \<and> below sid (trace c) (Suc (idx r)) \<and>
                playing rc sid (trace c) (idx r) (attempts r) \<and> retryCount r = rc
      | _ \<Rightarrow> False)"

definition tally_at :: "int \<Rightarrow> int \<Rightarrow> pc \<Rightarrow> queue \<Rightarrow> bool" where
  "tally_at sid rc p c \<longleftrightarrow>
     sid \<le> playSessionRef c \<and> pruns sid c = [] \<and>
     (case p of
        ForHead i \<Rightarrow> (\<forall>j<i. finished rc sid (trace c) j) \<and> below sid (trace c) i
      | WhileHead i a s \<Rightarrow>
          (\<forall>j<i. finished rc sid (trace c) j) \<and> below sid (trace c) (Suc i) \<and>
          current rc sid (trace c) i a s)"

text \<open>
  The keys of the clips that an invocation gave up, in the order of the clips, and the
  invariant that \<open>failedClips\<close> is this list as long as no other invocation has run since
  the list was reset.
\<close>

definition failed_keys :: "PcmClip list \<Rightarrow> int \<Rightarrow> event list \<Rightarrow> nat \<Rightarrow> string list" where
  "failed_keys cs sid tr n =
     map (\<lambda>j. key (cs ! j)) (filter (\<lambda>j. n_failed sid j tr = 1) [0..<n])"

definition alone :: "int \<Rightarrow> PcmClip list \<Rightarrow> queue \<Rightarrow> bool" where
  "alone sid cs c \<longleftrightarrow>
     playSessionRef c = sid \<and>
     (case runs c of
        [] \<Rightarrow> (\<exists>n\<le>length cs. failedClips c = failed_keys cs sid (trace c) n \<and>
                  below sid (trace c) n)
      | [r] \<Rightarrow> sessionId r = sid \<and> clips r = cs \<and> idx r < length cs \<and>
                failedClips c = failed_keys cs sid (trace c) (idx r) \<and>
                below sid (trace c) (Suc (idx r)) \<and> n_failed sid (idx r) (trace c) = 0
      | _ \<Rightarrow> False)"

definition alone_at :: "int \<Rightarrow> PcmClip list \<Rightarrow> pc \<Rightarrow> queue \<Rightarrow> bool" where
  "alone_at sid cs p c \<longleftrightarrow>
     playSessionRef c = sid \<and> runs c = [] \<and>
     (case p of
        ForHead i \<Rightarrow> i \<le> length cs \<and> failedClips c = failed_keys cs sid (trace c) i \<and>
                     below sid (trace c) i
      | WhileHead i a s \<Rightarrow>
          i < length cs \<and> failedClips c = failed_keys cs sid (trace c) i \<and>
          below sid (trace c) (Suc i) \<and> n_failed sid i (trace c) = 0)"

text \<open>
  What the trace says about one clip of one invocation, whatever else has happened.
\<close>

definition clip_ok :: "int \<Rightarrow> int \<Rightarrow> event list \<Rightarrow> nat \<Rightarrow> bool" where
  "clip_ok rc sid tr i \<longleftrightarrow>
     int (n_attempts sid i tr) \<le> rc + 1 \<and> n_failed sid i tr \<le> 1 \<and>
     (n_failed sid i tr = 1 \<longrightarrow>
        n_ended sid i tr = 0 \<and> n_attempts sid i tr = n_errors sid i tr \<and>
        int (n_errors sid i tr) = rc + 1) \<and>
     (0 < n_ended sid i tr \<longrightarrow> n_failed sid i tr = 0)"

text \<open>
  The run \<open>sid\<close> on its own: the audio of the attempt it waits for settles, with the next
  outcome of the list (true: it ended, false: it failed), until the run has returned or the
  list is used up.
\<close>

fun drive :: "bool list \<Rightarrow> int \<Rightarrow> queue \<Rightarrow> queue" where
  "drive [] sid c = c"
| "drive (ok # oks) sid c =
     (case find (\<lambda>r. sessionId r = sid) (runs c) of
        None \<Rightarrow> c
      | Some r \<Rightarrow> drive oks sid (settle (url r) ok c))"

text \<open>
  The attempts a run may still make: all attempts of the clips after the current one, and
  what is left of the current clip.
\<close>

definition budget :: "int \<Rightarrow> nat \<Rightarrow> nat \<Rightarrow> int \<Rightarrow> int" where
  "budget rc len i a = (int len - int i) * max 0 (rc + 1) - a"

definition budget_pc :: "int \<Rightarrow> nat \<Rightarrow> pc \<Rightarrow> int" where
  "budget_pc rc len p =
     (case p of
        ForHead i \<Rightarrow> budget rc len i 0
      | WhileHead i a s \<Rightarrow> (if s then budget rc len (Suc i) 0 else budget rc len i a))"

definition remaining :: "int \<Rightarrow> queue \<Rightarrow> int" where
  "remaining sid c =
     (case find (\<lambda>r. sessionId r = sid) (runs c) of
        None \<Rightarrow> 0
      | Some r \<Rightarrow> budget (retryCount r) (length (clips r)) (idx r) (attempts r))"

definition in_budget :: "int \<Rightarrow> int \<Rightarrow> PcmClip list \<Rightarrow> int \<Rightarrow> pc \<Rightarrow> queue \<Rightarrow> bool" where
  "in_budget sid rc cs b p c \<longleftrightarrow>
     (\<forall>r\<in>set (runs c). sessionId r \<noteq> sid) \<and> budget_pc rc (length cs) p \<le> b \<and>
     (case p of
        ForHead i \<Rightarrow> i \<le> length cs
      | WhileHead i a s \<Rightarrow> i < length cs \<and> 0 \<le> a \<and> a \<le> max 0 (rc + 1))"

text \<open>
  The attempt counter of a waiting invocation is within its bounds.
\<close>

definition inv_att :: "queue \<Rightarrow> bool" where
  "inv_att c \<longleftrightarrow> (\<forall>r\<in>set (runs c). 0 \<le> attempts r \<and> attempts r \<le> retryCount r)"

definition inv_att_at :: "pc \<Rightarrow> queue \<Rightarrow> bool" where
  "inv_att_at p c \<longleftrightarrow>
     inv_att c \<and> (case p of ForHead i \<Rightarrow> True | WhileHead i a s \<Rightarrow> 0 \<le> a)"

subsection \<open>Invariants of the speaking test\<close>

text \<open>
  The countdown timer: the cleanup of the timer effect is pending exactly when an interval
  is registered, there is at most one, \<open>timerRef\<close> holds its handle, and it was created for the
  dependencies of the last run of the effect, which are those of the last render.
\<close>

definition tinv :: "ctrl \<Rightarrow> bool" where
  "tinv s \<longleftrightarrow>
     (if effectCleanup s
      then \<exists>t. intervals s = [t] \<and> timerRef s = Some (tid t) \<and>
             seen_phase t = snd (effectDeps s) \<and> tid t < nextInterval s \<and>
             0 < fst (effectDeps s)
      else intervals s = [])"

definition synced :: "ctrl \<Rightarrow> bool" where
  "synced s \<longleftrightarrow> effectDeps s = (timeLeft s, phase s)"

definition timer_part :: "ctrl \<Rightarrow> timer list \<times> nat option \<times> nat \<times> (int \<times> TestPhase) \<times> bool" where
  "timer_part s = (intervals s, timerRef s, nextInterval s, effectDeps s, effectCleanup s)"

text \<open>
  A tick of a registered interval that takes the countdown to zero.
\<close>

fun zero_tick :: "ctrl \<Rightarrow> cevent \<Rightarrow> bool" where
  "zero_tick s (Tick i early now) =
     (navigated s = None \<and> i \<in> tid ` set (intervals s) \<and> timeLeft s \<le> 1)"
| "zero_tick s _ = False"

definition cinv :: "ctrl \<Rightarrow> bool" where
  "cinv s \<longleftrightarrow> tinv s \<and> (navigated s = None \<longrightarrow> synced s)"

text \<open>
  A session up to the preparation time of part 2, and the ticks of that minute.
\<close>

definition to_prep :: "cevent list" where
  "to_prep = [StartTest, ConnectionChange True, ClickStartPart1 1000,
     Timeout 0 False 3000, ClickNextPart2 10000, Timeout 0 False 14000]"

definition prep_ticks :: "nat \<Rightarrow> cevent list" where
  "prep_ticks n = map (\<lambda>i. Tick i False (14000 + 1000 * int i)) [1..<Suc n]"

text \<open>
  While a submission is on its way the start overlay is not shown.
\<close>

fun is_continue :: "delayed \<Rightarrow> bool" where
  "is_continue (ContinueCompleteTest recs) = True"
| "is_continue _ = False"

definition overlay_inv :: "ctrl \<Rightarrow> bool" where
  "overlay_inv s \<longleftrightarrow>
     (0 < awaiting s \<or> (\<exists>d\<in>set (pending s). is_continue d)) \<longrightarrow> \<not> showStartOverlay s"

text \<open>
  A session up to the request that submits the test, and recordings with a given speaking
  time for part 2.
\<close>

definition example_recordings :: "real \<Rightarrow> recordings" where
  "example_recordings d = [2 \<mapsto> (new_recording 2 0)\<lparr> speakingDuration := Some d \<rparr>]"

definition to_submitted :: "cevent list" where
  "to_submitted = [StartTest, ConnectionChange True, ClickStartPart1 1000,
     Timeout 0 False 3000, RecorderStarted, DataAvailable 7 512, UserTranscript ''hello'' True,
     ClickComplete, Timeout 0 False 9000]"

section \<open>Properties of the audio clip queue\<close>

subsection \<open>A proof rule for \<open>run_from\<close> and the invariants of the queue\<close>

lemma run_from_rule:
  assumes "Q pc c"
    and "\<And>i c. Q (ForHead i) c \<Longrightarrow> i < length cs \<Longrightarrow> playSessionRef c = sid
            \<Longrightarrow> Q (WhileHead i 0 False) (visit sid cs i c)"
    and "\<And>i c. Q (ForHead i) c \<Longrightarrow> \<not> (i < length cs \<and> playSessionRef c = sid)
            \<Longrightarrow> R (after_loop sid c)"
    and "\<And>i a c. Q (WhileHead i a False) c \<Longrightarrow> a \<le> rc
            \<Longrightarrow> R (begin_attempt sid m rc cs i a c)"
    and "\<And>i a c. Q (WhileHead i a False) c \<Longrightarrow> \<not> a \<le> rc
            \<Longrightarrow> Q (ForHead (Suc i)) (fail sid cs i c)"
    and "\<And>i a c. Q (WhileHead i a True) c \<Longrightarrow> Q (ForHead (Suc i)) c"
  shows "R (run_from sid m rc cs pc c)"
  using assms
proof (induction sid m rc cs pc c rule: run_from.induct)
  case (1 sid m rc cs i c)
  show ?case
  proof (cases "i < length cs \<and> playSessionRef c = sid")
    case True
    then have "run_from sid m rc cs (ForHead i) c
             = run_from sid m rc cs (WhileHead i 0 False) (visit sid cs i c)"
      by (subst run_from.simps(1)) simp
    moreover have "Q (WhileHead i 0 False) (visit sid cs i c)"
      using True "1.prems"(1,2) by blast
    ultimately show ?thesis using "1.IH" "1.prems"(2-) True by simp
  next
    case False
    then have "run_from sid m rc cs (ForHead i) c = after_loop sid c"
      by (subst run_from.simps(1)) auto
    then show ?thesis using False "1.prems"(1,3) by simp
  qed
next
  case (2 sid m rc cs i a s c)
  show ?case
  proof (cases "a \<le> rc \<and> \<not> s")
    case True
    then have "run_from sid m rc cs (WhileHead i a s) c = begin_attempt sid m rc cs i a c"
      by (subst run_from.simps(2)) auto
    then show ?thesis using True "2.prems"(1,4) by simp
  next
    case False
    then have eq: "run_from sid m rc cs (WhileHead i a s) c
             = run_from sid m rc cs (ForHead (Suc i)) (if \<not> s then fail sid cs i c else c)"
      by (subst run_from.simps(2)) auto
    have "Q (ForHead (Suc i)) (if \<not> s then fail sid cs i c else c)"
    proof (cases s)
      case True
      then show ?thesis using "2.prems"(1,6) by simp
    next
      case s: False
      with False have "\<not> a \<le> rc" by simp
      then show ?thesis using s "2.prems"(1,5) by simp
    qed
    then show ?thesis using "2.IH" "2.prems"(2-) False eq by simp
  qed
qed

lemma exec_Nil [simp]: "exec c [] = c"
  by (simp add: exec_def)

lemma exec_Cons [simp]: "exec c (x # xs) = exec (step c x) xs"
  by (simp add: exec_def)

lemma exec_append: "exec c (xs @ ys) = exec (exec c xs) ys"
  by (simp add: exec_def)

lemma exec_invariant:
  assumes "P c" and "\<And>c x. P c \<Longrightarrow> P (step c x)"
  shows "P (exec c ins)"
  using assms(1) by (induction ins arbitrary: c) (simp_all add: assms(2))

subsection \<open>Object URLs\<close>

lemma inv_url_run_from: "inv_url c \<Longrightarrow> inv_url (run_from sid m rc cs pc c)"
  by (rule run_from_rule [where Q = "\<lambda>_. inv_url" and R = inv_url])
     (auto simp: inv_url_def visit_def fail_def after_loop_def begin_attempt_def log_def
        decoded_def revoked_def inflight_def dec_of_def rev_of_def)

lemma inv_url_frame:
  "inv_url (c\<lparr> playSessionRef := a, isSpeaking := b, failedClips := d \<rparr>) = inv_url c"
  "inv_url (c\<lparr> playSessionRef := a, isSpeaking := b, currentClipKey := e \<rparr>) = inv_url c"
  by (simp_all add: inv_url_def inflight_def)

lemma inv_url_playClips: "inv_url c \<Longrightarrow> inv_url (playClips m cs rc c)"
  unfolding playClips_def Let_def
  by (auto intro!: inv_url_run_from simp: inv_url_frame)

lemma inv_url_stop: "inv_url c \<Longrightarrow> inv_url (stop c)"
  by (simp add: stop_def inv_url_frame)

lemma mset_map_remove1:
  "r \<in> set rs \<Longrightarrow> add_mset (f r) (mset (map f (remove1 r rs))) = mset (map f rs)"
  by (induction rs) auto

lemma inv_url_wake:
  assumes "inv_url c" "r \<in> set (runs c)"
  shows "inv_url (wake r ok c)"
proof -
  have d: "decoded (trace (wake r ok c)) = decoded (trace c)"
    by (simp add: wake_def log_def decoded_def dec_of_def)
  have rv: "revoked (trace (wake r ok c)) = revoked (trace c) @ [url r]"
    by (simp add: wake_def log_def revoked_def rev_of_def)
  have n: "nextUrl (wake r ok c) = nextUrl c"
    by (simp add: wake_def log_def)
  have "add_mset (url r) (mset (inflight (wake r ok c))) = mset (inflight c)"
    using mset_map_remove1 [OF assms(2), of url] by (simp add: wake_def log_def inflight_def)
  then have "mset (revoked (trace (wake r ok c))) + mset (inflight (wake r ok c))
      = mset (revoked (trace c)) + mset (inflight c)"
    unfolding rv by simp
  with assms(1) d n show ?thesis
    unfolding inv_url_def by simp
qed

lemma find_url: "find (\<lambda>r. url r = u) rs = Some r \<Longrightarrow> r \<in> set rs \<and> url r = u"
  by (auto simp: find_Some_iff)

lemma inv_url_settle: "inv_url c \<Longrightarrow> inv_url (settle u ok c)"
  by (auto simp: settle_def split: option.splits dest!: find_url
        intro!: inv_url_run_from inv_url_wake)

lemma inv_url_step: "inv_url c \<Longrightarrow> inv_url (step c x)"
  by (cases x) (simp_all add: inv_url_playClips inv_url_stop inv_url_settle)

lemma inv_url_init: "inv_url init"
  by (simp add: inv_url_def init_def decoded_def revoked_def inflight_def)

lemma inv_url_exec: "inv_url (exec init ins)"
  by (rule exec_invariant [OF inv_url_init inv_url_step])

subsection \<open>Sessions and positions\<close>

lemma ginv_run_from:
  assumes "running sid cs p c"
  shows "ginv (run_from sid m rc cs p c)"
proof (rule run_from_rule [where Q = "running sid cs" and R = ginv, OF assms])
  fix i c assume "running sid cs (ForHead i) c" "i < length cs" "playSessionRef c = sid"
  then show "running sid cs (WhileHead i 0 False) (visit sid cs i c)"
    by (auto simp: running_def inv_sess_def inv_pos_def at_pc_def visit_def log_def)
next
  fix i c assume "running sid cs (ForHead i) c"
  then show "ginv (after_loop sid c)"
    by (auto simp: running_def ginv_def inv_sess_def inv_pos_def after_loop_def)
next
  fix i a c assume "running sid cs (WhileHead i a False) c"
  then show "ginv (begin_attempt sid m rc cs i a c)"
    by (auto simp: running_def ginv_def inv_sess_def inv_pos_def at_pc_def begin_attempt_def)
next
  fix i a c assume "running sid cs (WhileHead i a False) c"
  then show "running sid cs (ForHead (Suc i)) (fail sid cs i c)"
    by (auto simp: running_def inv_sess_def inv_pos_def at_pc_def fail_def log_def
          intro: le_imp_less_Suc)
next
  fix i a c assume "running sid cs (WhileHead i a True) c"
  then show "running sid cs (ForHead (Suc i)) c"
    by (auto simp: running_def at_pc_def intro: le_imp_less_Suc)
qed

lemma ginv_playClips: "ginv c \<Longrightarrow> ginv (playClips m cs rc c)"
  unfolding playClips_def Let_def
  by (auto intro!: ginv_run_from)
     (auto simp: ginv_def running_def inv_sess_def inv_pos_def at_pc_def)

lemma ginv_stop: "ginv c \<Longrightarrow> ginv (stop c)"
  by (auto simp: ginv_def inv_sess_def inv_pos_def stop_def)

lemma distinct_map_other:
  assumes "distinct (map f rs)" "r \<in> set rs" "x \<in> set (remove1 r rs)"
  shows "f x \<noteq> f r"
proof -
  from assms(1) have d: "distinct rs" and i: "inj_on f (set rs)"
    by (simp_all add: distinct_map)
  from d assms(3) have "x \<in> set rs" "x \<noteq> r" by auto
  with i assms(2) show ?thesis by (auto dest: inj_onD)
qed

lemma distinct_map_remove1: "distinct (map f rs) \<Longrightarrow> distinct (map f (remove1 r rs))"
  using set_remove1_subset [of r rs]
  by (auto simp: distinct_map intro: inj_on_subset)

lemma trace_wake:
  "trace (wake r ok c) = trace c @
     [Ev (sessionId r) (idx r) (if ok then Ended (url r) else Errored (url r)),
      Ev (sessionId r) (idx r) (Revoke (url r))]"
  "runs (wake r ok c) = remove1 r (runs c)"
  "playSessionRef (wake r ok c) = playSessionRef c"
  "nextUrl (wake r ok c) = nextUrl c"
  "failedClips (wake r ok c) = failedClips c"
  "isSpeaking (wake r ok c) = isSpeaking c"
  "currentClipKey (wake r ok c) = currentClipKey c"
  by (simp_all add: wake_def log_def)

lemma set_remove1_D: "x \<in> set (remove1 r rs) \<Longrightarrow> x \<in> set rs"
  by (meson notin_set_remove1)

lemma inv_sess_wake:
  assumes "inv_sess c" "r \<in> set (runs c)"
  shows "inv_sess (wake r ok c)"
proof -
  from assms have d: "distinct (map sessionId (runs c))"
    and le: "\<forall>x\<in>set (runs c). sessionId x \<le> playSessionRef c"
    and ev: "\<forall>e\<in>set (trace c). ev_run e \<le> playSessionRef c"
    by (simp_all add: inv_sess_def)
  have "\<forall>x\<in>set (remove1 r (runs c)). sessionId x \<le> playSessionRef c"
    using le set_remove1_D by fast
  moreover have "distinct (map sessionId (remove1 r (runs c)))"
    using d by (rule distinct_map_remove1)
  moreover have "sessionId r \<le> playSessionRef c"
    using le assms(2) by blast
  ultimately show ?thesis
    using ev by (simp add: inv_sess_def trace_wake)
qed

lemma inv_pos_wake:
  assumes "inv_sess c" "inv_pos c" "r \<in> set (runs c)"
  shows "inv_pos (wake r ok c)"
  unfolding inv_pos_def trace_wake
proof (intro ballI conjI impI)
  fix x assume x: "x \<in> set (remove1 r (runs c))"
  then have xin: "x \<in> set (runs c)" by (rule set_remove1_D)
  then show "idx x < length (clips x)" using assms(2) by (simp add: inv_pos_def)
  fix e assume e: "e \<in> set (trace c @
     [Ev (sessionId r) (idx r) (if ok then Ended (url r) else Errored (url r)),
      Ev (sessionId r) (idx r) (Revoke (url r))])" "ev_run e = sessionId x"
  have "sessionId x \<noteq> sessionId r"
    using distinct_map_other [of sessionId "runs c" r x] assms(1,3) x
    by (simp add: inv_sess_def)
  with e have "e \<in> set (trace c)" by auto
  with e(2) xin assms(2) show "ev_clip e \<le> idx x" by (simp add: inv_pos_def)
qed

lemma running_wake:
  assumes "ginv c" "r \<in> set (runs c)"
  shows "running (sessionId r) (clips r) (WhileHead (idx r) a ok) (wake r ok' c)"
proof -
  from assms have hs: "inv_sess c" and ip: "inv_pos c"
    by (simp_all add: ginv_def)
  have other: "\<forall>x\<in>set (remove1 r (runs c)). sessionId x \<noteq> sessionId r"
    using distinct_map_other [of sessionId "runs c" r] hs assms(2)
    by (auto simp: inv_sess_def)
  have le: "sessionId r \<le> playSessionRef c"
    using hs assms(2) by (simp add: inv_sess_def)
  have 3: "at_pc (sessionId r) (clips r) (WhileHead (idx r) a ok) (wake r ok' c)"
    using ip assms(2) by (auto simp: at_pc_def trace_wake inv_pos_def)
  show ?thesis
    unfolding running_def
    using inv_sess_wake [OF hs assms(2)] inv_pos_wake [OF hs ip assms(2)] 3 other le
    by (simp add: trace_wake)
qed

lemma ginv_settle: "ginv c \<Longrightarrow> ginv (settle u ok c)"
  by (auto simp: settle_def split: option.splits dest!: find_url
        intro!: ginv_run_from running_wake)

lemma ginv_step: "ginv c \<Longrightarrow> ginv (step c x)"
  by (cases x) (simp_all add: ginv_playClips ginv_stop ginv_settle)

lemma ginv_init: "ginv init"
  by (simp add: ginv_def inv_sess_def inv_pos_def init_def)

lemma ginv_exec: "ginv (exec init ins)"
  by (rule exec_invariant [OF ginv_init ginv_step])

subsection \<open>A superseded invocation\<close>

lemma stale_run_from:
  assumes "stale_at sid i sid' p c"
  shows "stale sid i (run_from sid' m rc cs p c)"
proof (rule run_from_rule [where Q = "stale_at sid i sid'" and R = "stale sid i", OF assms])
  fix j c assume "stale_at sid i sid' (ForHead j) c" "playSessionRef c = sid'"
  then show "stale_at sid i sid' (WhileHead j 0 False) (visit sid' cs j c)"
    by (auto simp: stale_at_def stale_def visit_def log_def)
next
  fix j c assume "stale_at sid i sid' (ForHead j) c"
  then show "stale sid i (after_loop sid' c)"
    by (auto simp: stale_at_def stale_def after_loop_def)
next
  fix j a c assume "stale_at sid i sid' (WhileHead j a False) c"
  then show "stale sid i (begin_attempt sid' m rc cs j a c)"
    by (auto simp: stale_at_def stale_def begin_attempt_def)
next
  fix j a c assume "stale_at sid i sid' (WhileHead j a False) c"
  then show "stale_at sid i sid' (ForHead (Suc j)) (fail sid' cs j c)"
    by (auto simp: stale_at_def stale_def fail_def log_def)
next
  fix j a c assume "stale_at sid i sid' (WhileHead j a True) c"
  then show "stale_at sid i sid' (ForHead (Suc j)) c"
    by (auto simp: stale_at_def)
qed

lemma stale_playClips: "stale sid i c \<Longrightarrow> stale sid i (playClips m cs rc c)"
  unfolding playClips_def Let_def
  by (auto intro!: stale_run_from) (auto simp: stale_at_def stale_def)

lemma stale_stop: "stale sid i c \<Longrightarrow> stale sid i (stop c)"
  by (auto simp: stale_def stop_def)

lemma stale_wake:
  assumes "stale sid i c" "r \<in> set (runs c)"
  shows "stale_at sid i (sessionId r) (WhileHead (idx r) a ok) (wake r ok' c)"
  using assms set_remove1_D [of _ r "runs c"]
  by (auto simp: stale_at_def stale_def trace_wake)

lemma stale_settle: "stale sid i c \<Longrightarrow> stale sid i (settle u ok c)"
  by (auto simp: settle_def split: option.splits dest!: find_url
        intro!: stale_run_from stale_wake)

lemma stale_step: "stale sid i c \<Longrightarrow> stale sid i (step c x)"
  by (cases x) (simp_all add: stale_playClips stale_stop stale_settle)

lemma stale_exec: "stale sid i c \<Longrightarrow> stale sid i (exec c ins)"
  by (rule exec_invariant [where P = "stale sid i"]) (simp_all add: stale_step)

lemma stale_after_stop:
  assumes "ginv c" "r \<in> set (runs c)"
  shows "stale (sessionId r) (idx r) (stop c)"
proof -
  from assms have le: "sessionId r \<le> playSessionRef c"
    and ev: "\<forall>e\<in>set (trace c). ev_run e = sessionId r \<longrightarrow> ev_clip e \<le> idx r"
    and d: "distinct (map sessionId (runs c))"
    by (auto simp: ginv_def inv_sess_def inv_pos_def)
  have "\<forall>x\<in>set (runs c). sessionId x = sessionId r \<longrightarrow> x = r"
    using d assms(2) by (auto simp: distinct_map dest: inj_onD)
  then show ?thesis
    using le ev by (auto simp: stale_def stop_def)
qed

lemma stale_after_playClips:
  assumes "ginv c" "r \<in> set (runs c)" "cs \<noteq> []"
  shows "stale (sessionId r) (idx r) (playClips m cs rc c)"
proof -
  let ?c = "c\<lparr> playSessionRef := playSessionRef c + 1, isSpeaking := True, failedClips := [] \<rparr>"
  from assms have le: "sessionId r \<le> playSessionRef c"
    and ev: "\<forall>e\<in>set (trace c). ev_run e = sessionId r \<longrightarrow> ev_clip e \<le> idx r"
    and d: "distinct (map sessionId (runs c))"
    by (auto simp: ginv_def inv_sess_def inv_pos_def)
  have "\<forall>x\<in>set (runs c). sessionId x = sessionId r \<longrightarrow> x = r"
    using d assms(2) by (auto simp: distinct_map dest: inj_onD)
  then have "stale_at (sessionId r) (idx r) (playSessionRef c + 1) (ForHead 0) ?c"
    using le ev by (auto simp: stale_at_def stale_def)
  then show ?thesis
    using assms(3) by (simp add: playClips_def Let_def stale_run_from)
qed

lemma at_most_one_filter:
  "distinct (map f xs) \<Longrightarrow> length (filter (\<lambda>x. f x = k) xs) \<le> Suc 0"
proof (induction xs)
  case Nil
  then show ?case by simp
next
  case (Cons a xs)
  show ?case
  proof (cases "f a = k")
    case True
    with Cons.prems have "\<forall>x\<in>set xs. f x \<noteq> k" by (auto simp: image_iff)
    then have "filter (\<lambda>x. f x = k) xs = []" by (simp add: filter_empty_conv)
    with True show ?thesis by simp
  next
    case False
    with Cons show ?thesis by simp
  qed
qed

lemmas queue_eval = exec_def playClips_def stop_def settle_def wake_def run_from.simps
  visit_def fail_def begin_attempt_def after_loop_def log_def init_def Let_def
  clip_a_def clip_b_def

subsection \<open>Revocations, counted\<close>

lemma count_list_upt: "count_list [0..<n] u = (if u < n then 1 else 0)"
  by (induction n) auto

lemma count_split:
  assumes "inv_url c"
  shows "count_list (revoked (trace c)) u + count_list (inflight c) u
      = (if u < nextUrl c then 1 else 0)"
proof -
  from assms have "count (mset (revoked (trace c)) + mset (inflight c)) u
      = count (mset [0..<nextUrl c]) u"
    by (simp add: inv_url_def)
  then show ?thesis
    by (simp add: count_mset count_list_upt del: mset_upt)
qed

lemma count_revoked:
  assumes "inv_url c"
  shows "count_list (revoked (trace c)) u
       = (if u < nextUrl c \<and> u \<notin> set (inflight c) then 1 else 0)"
proof -
  note eq = count_split [OF assms, of u]
  show ?thesis
  proof (cases "u \<in> set (inflight c)")
    case True
    then have "count_list (inflight c) u \<noteq> 0" by (simp add: count_list_0_iff)
    with eq True show ?thesis by (auto split: if_splits)
  next
    case False
    then have "count_list (inflight c) u = 0" by (simp add: count_list_0_iff)
    with eq False show ?thesis by simp
  qed
qed

lemma trace_run_from: "\<exists>ys. trace (run_from sid m rc cs p c) = trace c @ ys"
  by (rule run_from_rule [where Q = "\<lambda>_ c'. \<exists>ys. trace c' = trace c @ ys"
        and R = "\<lambda>c'. \<exists>ys. trace c' = trace c @ ys"])
     (auto simp: visit_def fail_def after_loop_def begin_attempt_def log_def)

lemma trace_step: "\<exists>ys. trace (step c x) = trace c @ ys"
proof (cases x)
  case (PlayClips m cs rc)
  then show ?thesis
    using trace_run_from [of "playSessionRef c + 1" m rc cs "ForHead 0"
        "c\<lparr> playSessionRef := playSessionRef c + 1, isSpeaking := True, failedClips := [] \<rparr>"]
    by (auto simp: playClips_def Let_def)
next
  case Stop
  then show ?thesis by (simp add: stop_def)
next
  case (AudioEnded u)
  show ?thesis
  proof (cases "find (\<lambda>r. url r = u) (runs c)")
    case None
    then show ?thesis using AudioEnded by (simp add: settle_def)
  next
    case (Some r)
    then show ?thesis using AudioEnded
      trace_run_from [of "sessionId r" "muted r" "retryCount r" "clips r"
         "WhileHead (idx r) (attempts r) True" "wake r True c"]
      by (auto simp: settle_def trace_wake)
  qed
next
  case (AudioError u)
  show ?thesis
  proof (cases "find (\<lambda>r. url r = u) (runs c)")
    case None
    then show ?thesis using AudioError by (simp add: settle_def)
  next
    case (Some r)
    then show ?thesis using AudioError
      trace_run_from [of "sessionId r" "muted r" "retryCount r" "clips r"
         "WhileHead (idx r) (attempts r + 1) False" "wake r False c"]
      by (auto simp: settle_def trace_wake)
  qed
qed

lemma trace_exec: "\<exists>ys. trace (exec c ins) = trace c @ ys"
proof (induction ins arbitrary: c)
  case Nil
  then show ?case by simp
next
  case (Cons x xs)
  from trace_step [of c x] obtain ys where "trace (step c x) = trace c @ ys" ..
  moreover from Cons [of "step c x"] obtain zs
    where "trace (exec (step c x) xs) = trace (step c x) @ zs" ..
  ultimately show ?case by simp
qed

lemma revoked_append: "revoked (xs @ ys) = revoked xs @ revoked ys"
  by (simp add: revoked_def)

lemma find_distinct_url:
  assumes "distinct (map url rs)" "r \<in> set rs"
  shows "find (\<lambda>x. url x = url r) rs = Some r"
  using assms by (induction rs) (auto simp: image_iff)

lemma inv_url_distinct:
  assumes "inv_url c"
  shows "distinct (inflight c)"
  unfolding distinct_count_atmost_1
proof
  fix u
  show "count (mset (inflight c)) u = (if u \<in> set (inflight c) then 1 else 0)"
    using count_split [OF assms, of u] count_list_0_iff [of "inflight c" u]
    by (cases "u < nextUrl c") (auto simp: count_mset)
qed

lemma inv_url_exec_from: "inv_url c \<Longrightarrow> inv_url (exec c ins)"
  by (rule exec_invariant [where P = inv_url]) (simp_all add: inv_url_step)

lemma ginv_exec_from: "ginv c \<Longrightarrow> ginv (exec c ins)"
  by (rule exec_invariant [where P = ginv]) (simp_all add: ginv_step)

lemma revoked_after_settle:
  assumes "inv_url c" "r \<in> set (runs c)"
  shows "count_list (revoked (trace (exec (settle (url r) ok c) ins))) (url r) = 1"
proof -
  let ?c1 = "settle (url r) ok c" and ?c2 = "exec (settle (url r) ok c) ins"
  have f: "find (\<lambda>x. url x = url r) (runs c) = Some r"
    using inv_url_distinct [OF assms(1)] assms(2)
    by (intro find_distinct_url) (simp_all add: inflight_def)
  have "?c1 = run_from (sessionId r) (muted r) (retryCount r) (clips r)
      (WhileHead (idx r) (if ok then attempts r else attempts r + 1) ok) (wake r ok c)"
    using f by (simp add: settle_def)
  then obtain ys where "trace ?c1 = trace (wake r ok c) @ ys"
    using trace_run_from by metis
  moreover obtain zs where "trace ?c2 = trace ?c1 @ zs"
    using trace_exec by blast
  ultimately have "trace ?c2 = trace c @
       [Ev (sessionId r) (idx r) (if ok then Ended (url r) else Errored (url r)),
        Ev (sessionId r) (idx r) (Revoke (url r))] @ ys @ zs"
    by (simp add: trace_wake)
  then have ge: "1 \<le> count_list (revoked (trace ?c2)) (url r)"
    by (simp add: revoked_def rev_of_def)
  have "inv_url ?c2"
    using assms(1) by (intro inv_url_exec_from inv_url_settle)
  from count_revoked [OF this, of "url r"] ge show ?thesis
    by (simp split: if_splits)
qed

subsection \<open>The entries of one invocation\<close>

lemma accepts_append:
  "accepts s (xs @ ys) = (case accepts s xs of None \<Rightarrow> None | Some s' \<Rightarrow> accepts s' ys)"
  by (induction xs arbitrary: s) (auto split: option.splits)

lemma ptrace_snoc:
  "ptrace sid (tr @ [e]) = (if ev_run e = sid then ptrace sid tr @ [e] else ptrace sid tr)"
  by (simp add: ptrace_def)

lemma ptrace_append: "ptrace sid (xs @ ys) = ptrace sid xs @ ptrace sid ys"
  by (simp add: ptrace_def)

lemma prog_visit:
  assumes "prog cs T i Idle" "i < length cs"
  shows "prog cs (T @ [Ev sid i Visit]) (Suc i) Idle"
  using assms by (auto simp: prog_def accepts_append sorted_append intro: less_SucI less_imp_le)

lemma prog_fail:
  assumes "prog cs T (Suc i) Idle"
  shows "prog cs (T @ [Ev sid i Failed]) (Suc i) Idle"
  using assms by (auto simp: prog_def accepts_append sorted_append)

lemma prog_attempt:
  assumes "prog cs T (Suc i) Idle"
  shows "prog cs (T @ [Ev sid i (Attempt u m)]) (Suc i) (Playing u)"
  using assms by (auto simp: prog_def accepts_append sorted_append)

lemma prog_settle:
  assumes "prog cs T (Suc i) (Playing u)"
  shows "prog cs (T @ [Ev sid i (if ok then Ended u else Errored u), Ev sid i (Revoke u)])
           (Suc i) Idle"
  using assms by (auto simp: prog_def accepts_append sorted_append)

lemma psr_run_from: "playSessionRef (run_from sid m rc cs p c) = playSessionRef c"
  by (rule run_from_rule [where Q = "\<lambda>_ c'. playSessionRef c' = playSessionRef c"
        and R = "\<lambda>c'. playSessionRef c' = playSessionRef c"])
     (auto simp: visit_def fail_def after_loop_def begin_attempt_def log_def)

lemma frame_run_from:
  assumes "sid' \<noteq> sid"
  shows "same_view sid c (run_from sid' m rc cs p c)"
  using assms
  by (intro run_from_rule [where Q = "\<lambda>_. same_view sid c" and R = "same_view sid c"])
     (auto simp: same_view_def visit_def fail_def after_loop_def begin_attempt_def log_def
        ptrace_snoc pruns_def)

lemma filter_remove1_other:
  "\<not> P r \<Longrightarrow> filter P (remove1 r rs) = filter P rs"
  by (induction rs) auto

lemma frame_wake:
  assumes "sessionId r \<noteq> sid"
  shows "same_view sid c (wake r ok c)"
proof -
  have "filter (\<lambda>x. sessionId x = sid) (remove1 r (runs c))
      = filter (\<lambda>x. sessionId x = sid) (runs c)"
    using assms by (simp add: filter_remove1_other)
  then show ?thesis
    using assms set_remove1_D [of _ r "runs c"]
    by (auto simp: same_view_def trace_wake ptrace_append ptrace_def pruns_def)
qed

lemma same_view_trans: "same_view sid a b \<Longrightarrow> same_view sid b c \<Longrightarrow> same_view sid a c"
  by (auto simp: same_view_def)

lemma shape_same_view: "same_view sid c c' \<Longrightarrow> shape sid cs c \<Longrightarrow> shape sid cs c'"
  unfolding same_view_def shape_def by metis

lemma shape_run_from:
  assumes "shape_at sid cs p c"
  shows "shape sid cs (run_from sid m rc cs p c)"
proof (rule run_from_rule [where Q = "shape_at sid cs" and R = "shape sid cs", OF assms])
  fix i c assume "shape_at sid cs (ForHead i) c" "i < length cs"
  then show "shape_at sid cs (WhileHead i 0 False) (visit sid cs i c)"
    by (simp add: shape_at_def visit_def log_def ptrace_snoc pruns_def prog_visit)
next
  fix i c assume "shape_at sid cs (ForHead i) c" "\<not> (i < length cs \<and> playSessionRef c = sid)"
  then have "prog cs (ptrace sid (trace c)) i Idle \<and> (playSessionRef c = sid \<longrightarrow> i = length cs)"
    and "pruns sid c = []" and "sid \<le> playSessionRef c"
    by (auto simp: shape_at_def prog_def)
  then show "shape sid cs (after_loop sid c)"
    unfolding shape_def by (auto simp: after_loop_def pruns_def)
next
  fix i a c assume "shape_at sid cs (WhileHead i a False) c"
  then show "shape sid cs (begin_attempt sid m rc cs i a c)"
    by (simp add: shape_at_def shape_def begin_attempt_def ptrace_snoc pruns_def prog_attempt)
next
  fix i a c assume "shape_at sid cs (WhileHead i a False) c"
  then show "shape_at sid cs (ForHead (Suc i)) (fail sid cs i c)"
    by (simp add: shape_at_def fail_def log_def ptrace_snoc pruns_def prog_fail)
next
  fix i a c assume "shape_at sid cs (WhileHead i a True) c"
  then show "shape_at sid cs (ForHead (Suc i)) c"
    by (simp add: shape_at_def)
qed

lemma shape_at_wake:
  assumes "shape sid cs c" "r \<in> set (runs c)" "sessionId r = sid"
  shows "shape_at sid cs (WhileHead (idx r) a ok') (wake r ok c) \<and> clips r = cs"
proof -
  from assms(2,3) have "r \<in> set (pruns sid c)" by (simp add: pruns_def)
  with assms(1) have p: "pruns sid c = [r]"
    by (auto simp: shape_def split: list.splits)
  with assms(1) have pr: "prog cs (ptrace sid (trace c)) (Suc (idx r)) (Playing (url r))"
    and cl: "clips r = cs" and le: "sid \<le> playSessionRef c"
    by (simp_all add: shape_def)
  have "pruns sid (wake r ok c) = remove1 r (pruns sid c)"
    by (simp add: pruns_def trace_wake filter_remove1)
  with p have "pruns sid (wake r ok c) = []" by simp
  moreover have "prog cs (ptrace sid (trace (wake r ok c))) (Suc (idx r)) Idle"
    using prog_settle [OF pr, of sid ok] assms(3)
    by (simp add: trace_wake ptrace_append ptrace_def)
  ultimately show ?thesis using cl le by (simp add: shape_at_def trace_wake)
qed

lemma shape_settle:
  assumes "shape sid cs c"
  shows "shape sid cs (settle u ok c)"
proof (cases "find (\<lambda>r. url r = u) (runs c)")
  case None
  then show ?thesis using assms by (simp add: settle_def)
next
  case (Some r)
  then have r: "r \<in> set (runs c)" by (auto dest: find_url)
  let ?a = "if ok then attempts r else attempts r + 1"
  have eq: "settle u ok c = run_from (sessionId r) (muted r) (retryCount r) (clips r)
      (WhileHead (idx r) ?a ok) (wake r ok c)"
    using Some by (simp add: settle_def)
  show ?thesis
  proof (cases "sessionId r = sid")
    case True
    from shape_at_wake [OF assms r True, of ?a ok ok]
    show ?thesis unfolding eq using True shape_run_from by auto
  next
    case False
    have "same_view sid c (settle u ok c)"
      unfolding eq
      by (rule same_view_trans [OF frame_wake [OF False] frame_run_from [OF False]])
    then show ?thesis using assms by (rule shape_same_view)
  qed
qed

lemma shape_stop: "shape sid cs c \<Longrightarrow> shape sid cs (stop c)"
  by (auto simp: shape_def stop_def pruns_def split: list.splits)

lemma shape_bump:
  assumes "shape sid cs c"
  shows "shape sid cs (c\<lparr> playSessionRef := playSessionRef c + 1, isSpeaking := b,
                          failedClips := f \<rparr>)"
  using assms by (auto simp: shape_def pruns_def split: list.splits)

lemma shape_playClips:
  assumes "shape sid cs c"
  shows "shape sid cs (playClips m cs' rc c)"
proof (cases "cs' = []")
  case True
  then show ?thesis using assms by (simp add: playClips_def)
next
  case False
  let ?c = "c\<lparr> playSessionRef := playSessionRef c + 1, isSpeaking := True, failedClips := [] \<rparr>"
  from assms have "playSessionRef c + 1 \<noteq> sid" by (simp add: shape_def)
  then have "same_view sid ?c (run_from (playSessionRef c + 1) m rc cs' (ForHead 0) ?c)"
    by (rule frame_run_from)
  then show ?thesis
    using False shape_bump [OF assms, where b = True and f = "[]"]
    by (simp add: playClips_def Let_def shape_same_view)
qed

lemma shape_step: "shape sid cs c \<Longrightarrow> shape sid cs (step c x)"
  by (cases x) (simp_all add: shape_playClips shape_stop shape_settle)

lemma shape_exec: "shape sid cs c \<Longrightarrow> shape sid cs (exec c ins)"
  by (rule exec_invariant [where P = "shape sid cs"]) (simp_all add: shape_step)

lemma fresh_session:
  assumes "ginv c" "playSessionRef c < sid"
  shows "ptrace sid (trace c) = []" "pruns sid c = []"
  using assms
  by (auto simp: ginv_def inv_sess_def ptrace_def pruns_def filter_empty_conv)

lemma shape_start:
  assumes "ginv c" "cs \<noteq> []"
  shows "shape (playSessionRef c + 1) cs (playClips m cs rc c)"
proof -
  let ?sid = "playSessionRef c + 1"
  let ?c = "c\<lparr> playSessionRef := ?sid, isSpeaking := True, failedClips := [] \<rparr>"
  have "ptrace ?sid (trace c) = []" "pruns ?sid c = []"
    using fresh_session [OF assms(1), of ?sid] by simp_all
  then have "shape_at ?sid cs (ForHead 0) ?c"
    by (simp add: shape_at_def prog_def pruns_def)
  then show ?thesis
    using assms(2) by (simp add: playClips_def Let_def shape_run_from)
qed

lemma psr_settle: "playSessionRef (settle u ok c) = playSessionRef c"
  by (simp add: settle_def psr_run_from trace_wake split: option.splits)

lemma psr_settles:
  "\<forall>x\<in>set ins. is_settle x \<Longrightarrow> playSessionRef (exec c ins) = playSessionRef c"
proof (induction ins arbitrary: c)
  case Nil
  then show ?case by simp
next
  case (Cons x xs)
  then show ?case by (cases x) (simp_all add: psr_settle)
qed

lemma psr_playClips: "cs \<noteq> [] \<Longrightarrow> playSessionRef (playClips m cs rc c) = playSessionRef c + 1"
  by (simp add: playClips_def Let_def psr_run_from)

subsection \<open>Attempts, counted\<close>

lemma cnt_snoc:
  "cnt K sid j (tr @ [Ev s i k]) = cnt K sid j tr + (if s = sid \<and> i = j \<and> K k then 1 else 0)"
  by (simp add: cnt_def)

lemma cnt_append: "cnt K sid j (xs @ ys) = cnt K sid j xs + cnt K sid j ys"
  by (simp add: cnt_def)

lemma cnt_below: "below sid tr n \<Longrightarrow> n \<le> j \<Longrightarrow> cnt K sid j tr = 0"
  by (auto simp: cnt_def below_def filter_empty_conv)

lemma cnt_ptrace: "cnt K sid j (ptrace sid tr) = cnt K sid j tr"
  by (simp add: cnt_def ptrace_def conj_commute cong: conj_cong)

lemmas n_defs = n_attempts_def n_errors_def n_ended_def n_failed_def

lemma finished_other:
  "i \<noteq> j \<Longrightarrow> finished rc sid (tr @ [Ev s i k]) j = finished rc sid tr j"
  by (simp add: finished_def n_defs cnt_snoc)

lemma finished_visit: "finished rc sid (tr @ [Ev s i Visit]) j = finished rc sid tr j"
  by (simp add: finished_def n_defs cnt_snoc)

lemma below_snoc: "below sid tr n \<Longrightarrow> i < n \<Longrightarrow> below sid (tr @ [Ev s i k]) n"
  by (simp add: below_def)

lemma below_Suc_snoc: "below sid tr i \<Longrightarrow> below sid (tr @ [Ev s i k]) (Suc i)"
  by (auto simp: below_def intro: less_SucI)

lemma below_mono: "below sid tr n \<Longrightarrow> n \<le> n' \<Longrightarrow> below sid tr n'"
  by (auto simp: below_def)

lemma current_start:
  assumes "below sid tr i"
  shows "current rc sid (tr @ [Ev sid i Visit]) i 0 False"
  using cnt_below [OF assms order_refl]
  by (simp add: current_def n_defs cnt_snoc)

lemma playing_begin:
  assumes "current rc sid tr i a False" "a \<le> rc"
  shows "playing rc sid (tr @ [Ev sid i (Attempt u m)]) i a"
  using assms by (simp add: current_def playing_def n_defs cnt_snoc)

lemma finished_fail:
  assumes "current rc sid tr i a False" "\<not> a \<le> rc" "0 \<le> a"
  shows "finished rc sid (tr @ [Ev sid i Failed]) i"
  using assms by (auto simp: current_def finished_def n_defs cnt_snoc)

lemma finished_success:
  assumes "current rc sid tr i a True" "0 \<le> a"
  shows "finished rc sid tr i"
  using assms by (auto simp: current_def finished_def n_defs)

lemma current_nonneg: "current rc sid tr i a s \<Longrightarrow> 0 \<le> a"
  by (auto simp: current_def)

lemma current_settled:
  assumes "playing rc sid tr i a"
  shows "current rc sid (tr @ [Ev sid i (if ok then Ended u else Errored u), Ev sid i (Revoke u)])
           i (if ok then a else a + 1) ok"
  using assms
  by (auto simp: current_def playing_def n_defs cnt_append cnt_def)

lemma cnt_cong: "ptrace sid tr' = ptrace sid tr \<Longrightarrow> cnt K sid j tr' = cnt K sid j tr"
  by (metis cnt_ptrace)

lemma below_ptrace: "below sid tr n \<longleftrightarrow> (\<forall>e\<in>set (ptrace sid tr). ev_clip e < n)"
  by (auto simp: below_def ptrace_def)

lemma below_cong: "ptrace sid tr' = ptrace sid tr \<Longrightarrow> below sid tr' n = below sid tr n"
  by (simp add: below_ptrace)

lemma finished_cong:
  "ptrace sid tr' = ptrace sid tr \<Longrightarrow> finished rc sid tr' j = finished rc sid tr j"
  by (simp add: finished_def n_defs cnt_cong [of sid tr' tr])

lemma playing_cong:
  "ptrace sid tr' = ptrace sid tr \<Longrightarrow> playing rc sid tr' i a = playing rc sid tr i a"
  by (simp add: playing_def n_defs cnt_cong [of sid tr' tr])

lemma tally_same_view:
  assumes "same_view sid c c'" "tally sid rc c"
  shows "tally sid rc c'"
proof -
  from assms(1) have t: "ptrace sid (trace c') = ptrace sid (trace c)"
    and r: "pruns sid c' = pruns sid c" and p: "playSessionRef c' = playSessionRef c"
    by (simp_all add: same_view_def)
  show ?thesis
    using assms(2) unfolding tally_def r p
    by (simp add: finished_cong [OF t] playing_cong [OF t] below_cong [OF t]
          split: list.splits)
qed

lemma tally_run_from:
  assumes "tally_at sid rc p c"
  shows "tally sid rc (run_from sid m rc cs p c)"
proof (rule run_from_rule [where Q = "tally_at sid rc" and R = "tally sid rc", OF assms])
  fix i c assume "tally_at sid rc (ForHead i) c"
  then show "tally_at sid rc (WhileHead i 0 False) (visit sid cs i c)"
    by (simp add: tally_at_def visit_def log_def pruns_def finished_visit current_start
          below_Suc_snoc)
next
  fix i c assume "tally_at sid rc (ForHead i) c"
  then show "tally sid rc (after_loop sid c)"
    unfolding tally_at_def tally_def by (auto simp: after_loop_def pruns_def)
next
  fix i a c assume "tally_at sid rc (WhileHead i a False) c" "a \<le> rc"
  then show "tally sid rc (begin_attempt sid m rc cs i a c)"
    by (simp add: tally_at_def tally_def begin_attempt_def pruns_def finished_other
          below_snoc playing_begin)
next
  fix i a c assume a: "tally_at sid rc (WhileHead i a False) c" "\<not> a \<le> rc"
  then have cur: "current rc sid (trace c) i a False"
    and fin: "\<forall>j<i. finished rc sid (trace c) j"
    and bel: "below sid (trace c) (Suc i)"
    and rest: "sid \<le> playSessionRef c" "pruns sid c = []"
    by (simp_all add: tally_at_def)
  have "finished rc sid (trace c @ [Ev sid i Failed]) j" if "j < Suc i" for j
  proof (cases "j = i")
    case True
    then show ?thesis
      using finished_fail [OF cur a(2) current_nonneg [OF cur]] by simp
  next
    case False
    with that fin show ?thesis by (simp add: finished_other)
  qed
  then show "tally_at sid rc (ForHead (Suc i)) (fail sid cs i c)"
    using bel rest by (simp add: tally_at_def fail_def log_def pruns_def below_snoc)
next
  fix i a c assume a: "tally_at sid rc (WhileHead i a True) c"
  then have cur: "current rc sid (trace c) i a True"
    and fin: "\<forall>j<i. finished rc sid (trace c) j"
    by (simp_all add: tally_at_def)
  have "finished rc sid (trace c) j" if "j < Suc i" for j
    using that fin finished_success [OF cur current_nonneg [OF cur]]
    by (cases "j = i") simp_all
  then show "tally_at sid rc (ForHead (Suc i)) c"
    using a by (simp add: tally_at_def)
qed

lemma cnt_none: "\<forall>e\<in>set ys. ev_clip e \<noteq> j \<Longrightarrow> cnt K sid j ys = 0"
  by (auto simp: cnt_def filter_empty_conv)

lemma finished_others:
  "\<forall>e\<in>set ys. ev_clip e \<noteq> j \<Longrightarrow> finished rc sid (tr @ ys) j = finished rc sid tr j"
  by (simp add: finished_def n_defs cnt_append cnt_none)

lemma below_append: "below sid (tr @ ys) n \<longleftrightarrow> below sid tr n \<and> below sid ys n"
  by (auto simp: below_def)

lemma tally_at_wake:
  assumes "tally sid rc c" "r \<in> set (runs c)" "sessionId r = sid"
  shows "tally_at sid rc (WhileHead (idx r) (if ok then attempts r else attempts r + 1) ok)
           (wake r ok c) \<and> retryCount r = rc"
proof -
  from assms(2,3) have "r \<in> set (pruns sid c)" by (simp add: pruns_def)
  with assms(1) have p: "pruns sid c = [r]"
    by (auto simp: tally_def split: list.splits)
  with assms(1) have fin: "\<forall>j<idx r. finished rc sid (trace c) j"
    and bel: "below sid (trace c) (Suc (idx r))"
    and pl: "playing rc sid (trace c) (idx r) (attempts r)"
    and rc: "retryCount r = rc" and le: "sid \<le> playSessionRef c"
    by (simp_all add: tally_def)
  have "pruns sid (wake r ok c) = remove1 r (pruns sid c)"
    by (simp add: pruns_def trace_wake filter_remove1)
  with p have 1: "pruns sid (wake r ok c) = []" by simp
  let ?e1 = "Ev sid (idx r) (if ok then Ended (url r) else Errored (url r))"
  let ?e2 = "Ev sid (idx r) (Revoke (url r))"
  have tr: "trace (wake r ok c) = trace c @ [?e1, ?e2]"
    using assms(3) by (simp add: trace_wake)
  have 2: "\<forall>j<idx r. finished rc sid (trace (wake r ok c)) j"
    unfolding tr using fin by (simp add: finished_others)
  have 3: "below sid (trace (wake r ok c)) (Suc (idx r))"
    unfolding tr using bel by (simp add: below_append) (simp add: below_def)
  have 4: "current rc sid (trace (wake r ok c)) (idx r)
      (if ok then attempts r else attempts r + 1) ok"
    using current_settled [OF pl, of ok "url r"] assms(3) by (simp add: trace_wake)
  from 1 2 3 4 rc le show ?thesis by (simp add: tally_at_def trace_wake)
qed

lemma tally_settle:
  assumes "tally sid rc c"
  shows "tally sid rc (settle u ok c)"
proof (cases "find (\<lambda>r. url r = u) (runs c)")
  case None
  then show ?thesis using assms by (simp add: settle_def)
next
  case (Some r)
  then have r: "r \<in> set (runs c)" by (auto dest: find_url)
  let ?a = "if ok then attempts r else attempts r + 1"
  have eq: "settle u ok c = run_from (sessionId r) (muted r) (retryCount r) (clips r)
      (WhileHead (idx r) ?a ok) (wake r ok c)"
    using Some by (simp add: settle_def)
  show ?thesis
  proof (cases "sessionId r = sid")
    case True
    from tally_at_wake [OF assms r True, of ok]
    show ?thesis unfolding eq using True tally_run_from by auto
  next
    case False
    have "same_view sid c (settle u ok c)"
      unfolding eq
      by (rule same_view_trans [OF frame_wake [OF False] frame_run_from [OF False]])
    then show ?thesis using assms by (rule tally_same_view)
  qed
qed

lemma tally_stop: "tally sid rc c \<Longrightarrow> tally sid rc (stop c)"
  by (auto simp: tally_def stop_def pruns_def split: list.splits)

lemma tally_bump:
  assumes "tally sid rc c"
  shows "tally sid rc (c\<lparr> playSessionRef := playSessionRef c + 1, isSpeaking := b,
                          failedClips := f \<rparr>)"
  using assms by (auto simp: tally_def pruns_def split: list.splits)

lemma tally_playClips:
  assumes "tally sid rc c"
  shows "tally sid rc (playClips m cs' rc' c)"
proof (cases "cs' = []")
  case True
  then show ?thesis using assms by (simp add: playClips_def)
next
  case False
  let ?c = "c\<lparr> playSessionRef := playSessionRef c + 1, isSpeaking := True, failedClips := [] \<rparr>"
  from assms have "playSessionRef c + 1 \<noteq> sid" by (simp add: tally_def)
  then have "same_view sid ?c (run_from (playSessionRef c + 1) m rc' cs' (ForHead 0) ?c)"
    by (rule frame_run_from)
  then show ?thesis
    using False tally_bump [OF assms, where b = True and f = "[]"]
    by (simp add: playClips_def Let_def tally_same_view)
qed

lemma tally_step: "tally sid rc c \<Longrightarrow> tally sid rc (step c x)"
  by (cases x) (simp_all add: tally_playClips tally_stop tally_settle)

lemma tally_exec: "tally sid rc c \<Longrightarrow> tally sid rc (exec c ins)"
  by (rule exec_invariant [where P = "tally sid rc"]) (simp_all add: tally_step)

lemma tally_start:
  assumes "ginv c" "cs \<noteq> []"
  shows "tally (playSessionRef c + 1) rc (playClips m cs rc c)"
proof -
  let ?sid = "playSessionRef c + 1"
  let ?c = "c\<lparr> playSessionRef := ?sid, isSpeaking := True, failedClips := [] \<rparr>"
  have "ptrace ?sid (trace c) = []" "pruns ?sid c = []"
    using fresh_session [OF assms(1), of ?sid] by simp_all
  then have "tally_at ?sid rc (ForHead 0) ?c"
    by (simp add: tally_at_def below_ptrace pruns_def)
  then show ?thesis
    using assms(2) by (simp add: playClips_def Let_def tally_run_from)
qed

subsection \<open>The failed clips\<close>

lemma failed_keys_cong:
  "(\<And>j. j < n \<Longrightarrow> n_failed sid j tr' = n_failed sid j tr)
     \<Longrightarrow> failed_keys cs sid tr' n = failed_keys cs sid tr n"
  unfolding failed_keys_def by (rule arg_cong [where f = "map _"], rule filter_cong) simp_all

lemma failed_keys_Suc:
  "failed_keys cs sid tr (Suc i)
     = failed_keys cs sid tr i @ (if n_failed sid i tr = 1 then [key (cs ! i)] else [])"
  by (simp add: failed_keys_def)

lemma n_failed_snoc:
  "n_failed sid j (tr @ [Ev s i k])
     = n_failed sid j tr + (if s = sid \<and> i = j \<and> k = Failed then 1 else 0)"
  by (cases k) (simp_all add: n_failed_def cnt_snoc)

lemma failed_keys_snoc_other:
  "k \<noteq> Failed \<Longrightarrow> failed_keys cs sid (tr @ [Ev s i k]) n = failed_keys cs sid tr n"
  by (rule failed_keys_cong) (simp add: n_failed_snoc)

lemma failed_keys_snoc_later:
  "n \<le> i \<Longrightarrow> failed_keys cs sid (tr @ [Ev s i k]) n = failed_keys cs sid tr n"
  by (rule failed_keys_cong) (simp add: n_failed_snoc)

lemma failed_keys_extend:
  assumes "below sid tr n" "n \<le> m"
  shows "failed_keys cs sid tr m = failed_keys cs sid tr n"
proof -
  have "[0..<m] = [0..<n] @ [n..<m]"
    using assms(2) by (metis le_add_diff_inverse upt_add_eq_append zero_le)
  moreover have "filter (\<lambda>j. n_failed sid j tr = 1) [n..<m] = []"
    using cnt_below [OF assms(1)] by (simp add: filter_empty_conv n_failed_def)
  ultimately show ?thesis by (simp add: failed_keys_def)
qed

lemma n_failed_append_none:
  "\<forall>e\<in>set ys. ev_kind e \<noteq> Failed \<Longrightarrow> n_failed sid j (tr @ ys) = n_failed sid j tr"
proof -
  assume a: "\<forall>e\<in>set ys. ev_kind e \<noteq> Failed"
  have "is_failed k \<longleftrightarrow> k = Failed" for k by (cases k) simp_all
  with a have "cnt is_failed sid j ys = 0"
    by (auto simp: cnt_def filter_empty_conv)
  then show ?thesis by (simp add: n_failed_def cnt_append)
qed

lemma failed_keys_append_none:
  "\<forall>e\<in>set ys. ev_kind e \<noteq> Failed
     \<Longrightarrow> failed_keys cs sid (tr @ ys) n = failed_keys cs sid tr n"
  by (rule failed_keys_cong) (simp add: n_failed_append_none)

lemma alone_run_from:
  assumes "alone_at sid cs p c"
  shows "alone sid cs (run_from sid m rc cs p c)"
proof (rule run_from_rule [where Q = "alone_at sid cs" and R = "alone sid cs", OF assms])
  fix i c assume a: "alone_at sid cs (ForHead i) c" "i < length cs"
  then have "n_failed sid i (trace c) = 0"
    using cnt_below [of sid "trace c" i i] by (simp add: alone_at_def n_failed_def)
  with a show "alone_at sid cs (WhileHead i 0 False) (visit sid cs i c)"
    by (simp add: alone_at_def visit_def log_def failed_keys_snoc_other below_Suc_snoc
          n_failed_snoc)
next
  fix i c assume "alone_at sid cs (ForHead i) c"
  then show "alone sid cs (after_loop sid c)"
    unfolding alone_at_def alone_def by (auto simp: after_loop_def)
next
  fix i a c assume "alone_at sid cs (WhileHead i a False) c"
  then show "alone sid cs (begin_attempt sid m rc cs i a c)"
    by (simp add: alone_at_def alone_def begin_attempt_def failed_keys_snoc_other
          below_snoc n_failed_snoc)
next
  fix i a c assume a: "alone_at sid cs (WhileHead i a False) c"
  then have "failed_keys cs sid (trace c @ [Ev sid i Failed]) (Suc i)
      = failedClips c @ [key (cs ! i)]"
    by (simp add: alone_at_def failed_keys_Suc failed_keys_snoc_later n_failed_snoc)
  with a show "alone_at sid cs (ForHead (Suc i)) (fail sid cs i c)"
    by (simp add: alone_at_def fail_def log_def below_snoc)
next
  fix i a c assume "alone_at sid cs (WhileHead i a True) c"
  then show "alone_at sid cs (ForHead (Suc i)) c"
    by (simp add: alone_at_def failed_keys_Suc)
qed

lemma alone_settle:
  assumes "alone sid cs c"
  shows "alone sid cs (settle u ok c)"
proof (cases "find (\<lambda>r. url r = u) (runs c)")
  case None
  then show ?thesis using assms by (simp add: settle_def)
next
  case (Some r)
  then have r: "r \<in> set (runs c)" by (auto dest: find_url)
  with assms have rs: "runs c = [r]"
    by (auto simp: alone_def split: list.splits)
  with assms have f: "sessionId r = sid" "clips r = cs" "idx r < length cs"
    "failedClips c = failed_keys cs sid (trace c) (idx r)"
    "below sid (trace c) (Suc (idx r))" "n_failed sid (idx r) (trace c) = 0"
    "playSessionRef c = sid"
    by (simp_all add: alone_def)
  let ?a = "if ok then attempts r else attempts r + 1"
  let ?e1 = "Ev sid (idx r) (if ok then Ended (url r) else Errored (url r))"
  let ?e2 = "Ev sid (idx r) (Revoke (url r))"
  have tr: "trace (wake r ok c) = trace c @ [?e1, ?e2]"
    using f(1) by (simp add: trace_wake)
  have nf: "\<forall>e\<in>set [?e1, ?e2]. ev_kind e \<noteq> Failed" by simp
  have bl: "below sid [?e1, ?e2] (Suc (idx r))" by (simp add: below_def)
  have "alone_at sid cs (WhileHead (idx r) ?a ok) (wake r ok c)"
    unfolding alone_at_def pc.case tr
      failed_keys_append_none [OF nf] n_failed_append_none [OF nf] below_append
    using f rs bl by (simp add: trace_wake)
  then have "alone sid cs (run_from sid (muted r) (retryCount r) cs
      (WhileHead (idx r) ?a ok) (wake r ok c))"
    by (rule alone_run_from)
  then show ?thesis using Some f(1,2) by (simp add: settle_def)
qed

lemma alone_settles:
  "alone sid cs c \<Longrightarrow> \<forall>x\<in>set ins. is_settle x \<Longrightarrow> alone sid cs (exec c ins)"
proof (induction ins arbitrary: c)
  case Nil
  then show ?case by simp
next
  case (Cons x xs)
  then show ?case by (cases x) (simp_all add: alone_settle)
qed

lemma alone_start:
  assumes "ginv c" "cs \<noteq> []" "runs c = []"
  shows "alone (playSessionRef c + 1) cs (playClips m cs rc c)"
proof -
  let ?sid = "playSessionRef c + 1"
  let ?c = "c\<lparr> playSessionRef := ?sid, isSpeaking := True, failedClips := [] \<rparr>"
  have "ptrace ?sid (trace c) = []"
    using fresh_session [OF assms(1), of ?sid] by simp
  then have "alone_at ?sid cs (ForHead 0) ?c"
    using assms(3) by (simp add: alone_at_def below_ptrace failed_keys_def)
  then show ?thesis
    using assms(2) by (simp add: playClips_def Let_def alone_run_from)
qed

lemma alone_failedClips:
  assumes "alone sid cs c"
  shows "failedClips c = failed_keys cs sid (trace c) (length cs)"
proof (cases "runs c")
  case Nil
  with assms obtain n where n: "n \<le> length cs" "failedClips c = failed_keys cs sid (trace c) n"
    "below sid (trace c) n"
    by (auto simp: alone_def)
  from failed_keys_extend [OF n(3,1), of cs] n(2) show ?thesis by simp
next
  case (Cons r rs)
  with assms have rs: "runs c = [r]" by (auto simp: alone_def split: list.splits)
  with assms have f: "idx r < length cs"
    "failedClips c = failed_keys cs sid (trace c) (idx r)"
    "below sid (trace c) (Suc (idx r))" "n_failed sid (idx r) (trace c) = 0"
    by (simp_all add: alone_def)
  from f(1) have "Suc (idx r) \<le> length cs" by simp
  from failed_keys_extend [OF f(3) this, of cs]
  show ?thesis using f(2,4) by (simp add: failed_keys_Suc)
qed

lemma finished_clip_ok:
  assumes "finished rc sid tr j" "0 \<le> rc"
  shows "clip_ok rc sid tr j"
  using assms by (auto simp: finished_def clip_ok_def)

lemma playing_clip_ok:
  assumes "playing rc sid tr i a"
  shows "clip_ok rc sid tr i"
  using assms by (auto simp: playing_def clip_ok_def)

lemma none_clip_ok:
  assumes "below sid tr n" "n \<le> j" "0 \<le> rc"
  shows "clip_ok rc sid tr j"
  using cnt_below [OF assms(1,2)] assms(3) by (simp add: clip_ok_def n_defs)

lemma tally_clip_ok:
  assumes "tally sid rc c" "0 \<le> rc"
  shows "clip_ok rc sid (trace c) i"
proof (cases "pruns sid c")
  case Nil
  with assms(1) obtain n where n: "\<forall>j<n. finished rc sid (trace c) j" "below sid (trace c) n"
    by (auto simp: tally_def)
  show ?thesis
  proof (cases "i < n")
    case True
    with n(1) assms(2) show ?thesis by (simp add: finished_clip_ok)
  next
    case False
    with n(2) assms(2) show ?thesis by (intro none_clip_ok [of sid _ n]) simp_all
  qed
next
  case (Cons r rs)
  with assms(1) have p: "pruns sid c = [r]" by (auto simp: tally_def split: list.splits)
  with assms(1) have fin: "\<forall>j<idx r. finished rc sid (trace c) j"
    and bel: "below sid (trace c) (Suc (idx r))"
    and pl: "playing rc sid (trace c) (idx r) (attempts r)"
    by (simp_all add: tally_def)
  consider "i < idx r" | "i = idx r" | "Suc (idx r) \<le> i" by linarith
  then show ?thesis
  proof cases
    case 1
    with fin assms(2) show ?thesis by (simp add: finished_clip_ok)
  next
    case 2
    with pl show ?thesis by (simp add: playing_clip_ok)
  next
    case 3
    with bel assms(2) show ?thesis by (intro none_clip_ok [of sid _ "Suc (idx r)"]) simp_all
  qed
qed

lemma visited_event:
  "i \<in> set (visited sid tr) \<Longrightarrow> \<exists>e\<in>set tr. ev_run e = sid \<and> ev_clip e = i"
  by (auto simp: visited_def ptrace_def)

lemma tally_done:
  assumes "tally sid rc c" "i \<in> set (visited sid (trace c))"
    and "\<forall>r\<in>set (runs c). sessionId r = sid \<longrightarrow> idx r \<noteq> i"
    and "n_ended sid i (trace c) = 0"
  shows "n_failed sid i (trace c) = 1"
proof -
  from visited_event [OF assms(2)] obtain e
    where e: "e \<in> set (trace c)" "ev_run e = sid" "ev_clip e = i" by blast
  have "finished rc sid (trace c) i"
  proof (cases "pruns sid c")
    case Nil
    with assms(1) obtain n where n: "\<forall>j<n. finished rc sid (trace c) j" "below sid (trace c) n"
      by (auto simp: tally_def)
    from n(2) e have "i < n" by (auto simp: below_def)
    with n(1) show ?thesis by simp
  next
    case (Cons r rs)
    with assms(1) have p: "pruns sid c = [r]" by (auto simp: tally_def split: list.splits)
    with assms(1) have fin: "\<forall>j<idx r. finished rc sid (trace c) j"
      and bel: "below sid (trace c) (Suc (idx r))"
      by (simp_all add: tally_def)
    from p have "r \<in> set (pruns sid c)" by simp
    then have "r \<in> set (runs c)" "sessionId r = sid" by (simp_all add: pruns_def)
    with assms(3) have "idx r \<noteq> i" by blast
    moreover from bel e have "i < Suc (idx r)" by (auto simp: below_def)
    ultimately have "i < idx r" by simp
    with fin show ?thesis by simp
  qed
  with assms(4) show ?thesis by (simp add: finished_def)
qed

subsection \<open>An invocation returns\<close>

lemma find_none_sid:
  "(\<forall>r\<in>set rs. sessionId r \<noteq> sid) \<Longrightarrow> find (\<lambda>r. sessionId r = sid) rs = None"
  by (simp add: find_None_iff)

lemma find_snoc_sid:
  "(\<forall>r\<in>set rs. sessionId r \<noteq> sid) \<Longrightarrow> sessionId x = sid
     \<Longrightarrow> find (\<lambda>r. sessionId r = sid) (rs @ [x]) = Some x"
  by (induction rs) auto

lemma remaining_run_from:
  assumes "in_budget sid rc cs b p c"
  shows "remaining sid (run_from sid m rc cs p c) \<le> b \<and>
         0 \<le> remaining sid (run_from sid m rc cs p c)"
proof (rule run_from_rule [where Q = "in_budget sid rc cs b"
      and R = "\<lambda>c'. remaining sid c' \<le> b \<and> 0 \<le> remaining sid c'", OF assms])
  fix i c assume "in_budget sid rc cs b (ForHead i) c" "i < length cs"
  then show "in_budget sid rc cs b (WhileHead i 0 False) (visit sid cs i c)"
    by (simp add: in_budget_def budget_pc_def visit_def log_def)
next
  fix i c assume a: "in_budget sid rc cs b (ForHead i) c"
  then have "budget rc (length cs) i 0 \<le> b" "i \<le> length cs"
    by (simp_all add: in_budget_def budget_pc_def)
  then have "0 \<le> b" by (auto simp: budget_def intro: order_trans [rotated])
  moreover have "remaining sid (after_loop sid c) = 0"
    using a by (simp add: in_budget_def remaining_def after_loop_def find_none_sid)
  ultimately show "remaining sid (after_loop sid c) \<le> b \<and> 0 \<le> remaining sid (after_loop sid c)"
    by simp
next
  fix i a c assume w: "in_budget sid rc cs b (WhileHead i a False) c" and le: "a \<le> rc"
  then have f: "find (\<lambda>r. sessionId r = sid) (runs (begin_attempt sid m rc cs i a c))
      = Some \<lparr> sessionId = sid, muted = m, clips = cs, retryCount = rc,
               idx = i, attempts = a, url = nextUrl c \<rparr>"
    by (simp add: in_budget_def begin_attempt_def find_snoc_sid)
  from w have b: "budget rc (length cs) i a \<le> b" "i < length cs" "0 \<le> a"
    by (simp_all add: in_budget_def budget_pc_def)
  have n: "1 \<le> int (length cs) - int i" using b(2) by simp
  have k: "0 \<le> rc + 1" using le b(3) by simp
  define P where "P = (int (length cs) - int i) * (rc + 1)"
  have "1 * (rc + 1) \<le> P"
    unfolding P_def using n k by (rule mult_right_mono)
  then have "a \<le> P" using le by simp
  moreover have "budget rc (length cs) i a = P - a"
    using k by (simp add: budget_def max_def P_def)
  ultimately have "0 \<le> budget rc (length cs) i a" by simp
  with b(1) f show "remaining sid (begin_attempt sid m rc cs i a c) \<le> b \<and>
      0 \<le> remaining sid (begin_attempt sid m rc cs i a c)"
    by (simp add: remaining_def)
next
  fix i a c assume w: "in_budget sid rc cs b (WhileHead i a False) c" and "\<not> a \<le> rc"
  then have "budget rc (length cs) i a \<le> b" "a \<le> max 0 (rc + 1)" "i < length cs"
    "\<forall>r\<in>set (runs c). sessionId r \<noteq> sid"
    by (simp_all add: in_budget_def budget_pc_def)
  moreover have "budget rc (length cs) (Suc i) 0 \<le> budget rc (length cs) i a"
    using \<open>a \<le> max 0 (rc + 1)\<close> by (simp add: budget_def algebra_simps)
  ultimately show "in_budget sid rc cs b (ForHead (Suc i)) (fail sid cs i c)"
    by (simp add: in_budget_def budget_pc_def fail_def log_def)
next
  fix i a c assume "in_budget sid rc cs b (WhileHead i a True) c"
  then show "in_budget sid rc cs b (ForHead (Suc i)) c"
    by (simp add: in_budget_def budget_pc_def)
qed

lemma inv_att_run_from:
  assumes "inv_att_at p c"
  shows "inv_att (run_from sid m rc cs p c)"
  by (rule run_from_rule [where Q = inv_att_at and R = inv_att, OF assms])
     (auto simp: inv_att_at_def inv_att_def visit_def fail_def after_loop_def
        begin_attempt_def log_def)

lemma inv_att_settle: "inv_att c \<Longrightarrow> inv_att (settle u ok c)"
proof (cases "find (\<lambda>r. url r = u) (runs c)")
  case None
  assume "inv_att c"
  with None show ?thesis by (simp add: settle_def)
next
  case (Some r)
  assume a: "inv_att c"
  from Some have r: "r \<in> set (runs c)" by (auto dest: find_url)
  have "inv_att_at (WhileHead (idx r) (if ok then attempts r else attempts r + 1) ok)
      (wake r ok c)"
    using a r set_remove1_D [of _ r "runs c"]
    by (auto simp: inv_att_at_def inv_att_def trace_wake)
  then show ?thesis using Some by (simp add: settle_def inv_att_run_from)
qed

lemma inv_att_playClips: "inv_att c \<Longrightarrow> inv_att (playClips m cs rc c)"
  unfolding playClips_def Let_def
  by (auto intro!: inv_att_run_from) (auto simp: inv_att_at_def inv_att_def)

lemma inv_att_stop: "inv_att c \<Longrightarrow> inv_att (stop c)"
  by (simp add: inv_att_def stop_def)

lemma inv_att_step: "inv_att c \<Longrightarrow> inv_att (step c x)"
  by (cases x) (simp_all add: inv_att_playClips inv_att_stop inv_att_settle)

lemma inv_att_exec: "inv_att (exec init ins)"
  by (rule exec_invariant [where P = inv_att])
     (simp_all add: inv_att_step, simp add: inv_att_def init_def)

lemma find_sid:
  "find (\<lambda>r. sessionId r = sid) rs = Some r \<Longrightarrow> r \<in> set rs \<and> sessionId r = sid"
  by (auto simp: find_Some_iff)

lemma budget_waiting:
  assumes "i < len" "a \<le> rc" "0 \<le> a"
  shows "1 \<le> budget rc len i a"
proof -
  have n: "1 \<le> int len - int i" using assms(1) by simp
  have k: "0 \<le> rc + 1" using assms(2,3) by simp
  define P where "P = (int len - int i) * (rc + 1)"
  have "1 * (rc + 1) \<le> P"
    unfolding P_def using n k by (rule mult_right_mono)
  then have "a + 1 \<le> P" using assms(2) by simp
  moreover have "budget rc len i a = P - a"
    using k by (simp add: budget_def max_def P_def)
  ultimately show ?thesis by simp
qed

lemma remaining_settle:
  assumes "ginv c" "inv_url c" "inv_att c"
    and "find (\<lambda>r. sessionId r = sid) (runs c) = Some r"
  shows "remaining sid (settle (url r) ok c) < remaining sid c \<and>
         0 \<le> remaining sid (settle (url r) ok c)"
proof -
  from find_sid [OF assms(4)] have r: "r \<in> set (runs c)" and s: "sessionId r = sid"
    by simp_all
  let ?rc = "retryCount r" and ?cs = "clips r" and ?i = "idx r" and ?a = "attempts r"
  let ?a' = "if ok then ?a else ?a + 1"
  from assms(1) r have i: "?i < length ?cs" and d: "distinct (map sessionId (runs c))"
    by (auto simp: ginv_def inv_pos_def inv_sess_def)
  from assms(3) r have a: "0 \<le> ?a" "?a \<le> ?rc" by (auto simp: inv_att_def)
  have f: "find (\<lambda>x. url x = url r) (runs c) = Some r"
    using inv_url_distinct [OF assms(2)] r
    by (intro find_distinct_url) (simp_all add: inflight_def)
  then have eq: "settle (url r) ok c
      = run_from sid (muted r) ?rc ?cs (WhileHead ?i ?a' ok) (wake r ok c)"
    using s by (simp add: settle_def)
  have rem: "remaining sid c = budget ?rc (length ?cs) ?i ?a"
    using assms(4) by (simp add: remaining_def)
  have other: "\<forall>x\<in>set (runs (wake r ok c)). sessionId x \<noteq> sid"
    using distinct_map_other [OF d r] s by (auto simp: trace_wake)
  have k: "max 0 (?rc + 1) = ?rc + 1" using a by simp
  have bp: "budget_pc ?rc (length ?cs) (WhileHead ?i ?a' ok)
      \<le> budget ?rc (length ?cs) ?i ?a - 1"
    using a by (simp add: budget_pc_def budget_def k algebra_simps)
  have "in_budget sid ?rc ?cs (budget ?rc (length ?cs) ?i ?a - 1)
      (WhileHead ?i ?a' ok) (wake r ok c)"
    unfolding in_budget_def using other bp i a by (simp add: k)
  from remaining_run_from [OF this, of "muted r"] show ?thesis
    unfolding eq rem by simp
qed

lemma remaining_waiting:
  assumes "ginv c" "inv_att c" "find (\<lambda>r. sessionId r = sid) (runs c) = Some r"
  shows "1 \<le> remaining sid c"
proof -
  from find_sid [OF assms(3)] have r: "r \<in> set (runs c)" by simp
  with assms(1,2) have "idx r < length (clips r)" "0 \<le> attempts r"
    "attempts r \<le> retryCount r"
    by (auto simp: ginv_def inv_pos_def inv_att_def)
  then show ?thesis
    using assms(3) by (simp add: remaining_def budget_waiting)
qed

lemma drive_returns:
  assumes "ginv c" "inv_url c" "inv_att c" "remaining sid c \<le> int (length oks)"
  shows "\<forall>r\<in>set (runs (drive oks sid c)). sessionId r \<noteq> sid"
  using assms
proof (induction oks arbitrary: c)
  case Nil
  show ?case
  proof (cases "find (\<lambda>r. sessionId r = sid) (runs c)")
    case None
    then show ?thesis by (simp add: find_None_iff)
  next
    case (Some r)
    from remaining_waiting [OF Nil(1,3) Some] Nil(4) show ?thesis by simp
  qed
next
  case (Cons ok oks)
  show ?case
  proof (cases "find (\<lambda>r. sessionId r = sid) (runs c)")
    case None
    then have "drive (ok # oks) sid c = c" by simp
    moreover from None have "\<forall>r\<in>set (runs c). sessionId r \<noteq> sid"
      by (simp add: find_None_iff)
    ultimately show ?thesis by simp
  next
    case (Some r)
    have "remaining sid (settle (url r) ok c) \<le> int (length oks)"
      using remaining_settle [OF Cons.prems(1,2,3) Some, of ok] Cons.prems(4) by simp
    then have "\<forall>x\<in>set (runs (drive oks sid (settle (url r) ok c))). sessionId x \<noteq> sid"
      using Cons.prems(1,2,3)
      by (intro Cons.IH ginv_settle inv_url_settle inv_att_settle)
    then show ?thesis using Some by simp
  qed
qed

lemma drive_exec:
  "\<exists>ins. (\<forall>x\<in>set ins. is_settle x) \<and> drive oks sid c = exec c ins"
proof (induction oks arbitrary: c)
  case Nil
  have "(\<forall>x\<in>set []. is_settle x) \<and> drive [] sid c = exec c []" by simp
  then show ?case by blast
next
  case (Cons ok oks)
  show ?case
  proof (cases "find (\<lambda>r. sessionId r = sid) (runs c)")
    case None
    then have "(\<forall>x\<in>set []. is_settle x) \<and> drive (ok # oks) sid c = exec c []" by simp
    then show ?thesis by blast
  next
    case (Some r)
    from Cons [of "settle (url r) ok c"] obtain ins
      where ins: "\<forall>x\<in>set ins. is_settle x"
        "drive oks sid (settle (url r) ok c) = exec (settle (url r) ok c) ins"
      by blast
    let ?x = "if ok then AudioEnded (url r) else AudioError (url r)"
    have "(\<forall>x\<in>set (?x # ins). is_settle x) \<and> drive (ok # oks) sid c = exec c (?x # ins)"
      using ins Some by simp
    then show ?thesis by blast
  qed
qed

lemma remaining_start:
  assumes "ginv c" "cs \<noteq> []"
  shows "remaining (playSessionRef c + 1) (playClips m cs rc c)
           \<le> int (length cs) * max 0 (rc + 1)"
proof -
  let ?sid = "playSessionRef c + 1"
  let ?c = "c\<lparr> playSessionRef := ?sid, isSpeaking := True, failedClips := [] \<rparr>"
  have "pruns ?sid c = []"
    using fresh_session [OF assms(1), of ?sid] by simp
  then have "\<forall>r\<in>set (runs c). sessionId r \<noteq> ?sid"
    by (simp add: pruns_def filter_empty_conv)
  then have "in_budget ?sid rc cs (int (length cs) * max 0 (rc + 1)) (ForHead 0) ?c"
    by (simp add: in_budget_def budget_pc_def budget_def)
  from remaining_run_from [OF this, of m] show ?thesis
    using assms(2) by (simp add: playClips_def Let_def)
qed

section \<open>Properties of the speaking test page\<close>

subsection \<open>The timer invariant is kept by every event\<close>

lemma tinv_cong: "timer_part s' = timer_part s \<Longrightarrow> tinv s' = tinv s"
  by (simp add: timer_part_def tinv_def)

lemma timer_part_handleTimeUp: "timer_part (handleTimeUp p now s) = timer_part s"
  by (cases p) (simp_all add: timer_part_def setTimeout_def)

lemma navigated_handleTimeUp: "navigated (handleTimeUp p now s) = navigated s"
  by (cases p) (simp_all add: setTimeout_def)

lemma timer_part_tick: "timer_part (tick t early now s) = timer_part s"
  using timer_part_handleTimeUp [of "seen_phase t" now s]
    timer_part_handleTimeUp [of "seen_phase t" now "s\<lparr> timeLeft := 0 \<rparr>"]
  by (simp add: tick_def Let_def timer_part_def)

lemma navigated_tick: "navigated (tick t early now s) = navigated s"
  by (simp add: tick_def Let_def navigated_handleTimeUp)

lemma timer_part_run_delayed: "timer_part (run_delayed d early now s) = timer_part s"
  by (cases d)
     (simp_all add: timer_part_def transitionToPart3_def setTimeout_def continueCompleteTest_def)

lemma navigated_run_delayed: "navigated (run_delayed d early now s) = navigated s"
  by (cases d) (simp_all add: transitionToPart3_def setTimeout_def continueCompleteTest_def)

lemmas handler_defs = handleStartTest_def connectFailed_def onConnectionChange_def
  startIdentityCheck_def startPart1_def transitionToPart2_def startPart2Speaking_def
  stopRecording_def handleCompleteTest_def onUserTranscript_def ondataavailable_def
  onloadend_def recorderStarted_def microphoneError_def setTimeout_def

lemma timer_part_handle:
  "timer_part (handle e s) = timer_part s \<and> navigated (handle e s) = navigated s \<or>
   (\<exists>route s0. handle e s = navigate route s0 \<and> timer_part s0 = timer_part s \<and>
      timeUps s0 = timeUps s \<and> phase s0 = phase s)"
proof (cases e)
  case (Timeout k early now)
  then show ?thesis
    using timer_part_run_delayed [of "pending s ! k" early now
        "s\<lparr> pending := take k (pending s) @ drop (Suc k) (pending s) \<rparr>"]
    by (simp add: timer_part_def navigated_run_delayed)
next
  case (Tick i early now)
  then show ?thesis
    by (simp add: timer_part_tick navigated_tick split: option.splits)
next
  case (SubmissionSettled ok)
  show ?thesis
  proof (cases "ok \<and> awaiting s \<noteq> 0")
    case True
    let ?s0 = "s\<lparr> awaiting := awaiting s - 1, toasts := toasts s @ [\<lparr> title = ''Test Submitted'',
            description = ''Your speaking test is being evaluated'', destructive = False \<rparr>] \<rparr>"
    have "handle e s = navigate (''/ai-practice/speaking/results/'' @ testId s) ?s0"
      using True SubmissionSettled by (simp add: submissionSucceeded_def)
    moreover have "timer_part ?s0 = timer_part s" "timeUps ?s0 = timeUps s" "phase ?s0 = phase s"
      by (simp_all add: timer_part_def)
    ultimately show ?thesis by blast
  next
    case False
    then show ?thesis
      using SubmissionSettled by (auto simp: timer_part_def submissionFailed_def)
  qed
qed (simp_all add: timer_part_def handler_defs)

lemma tinv_navigate:
  assumes "tinv s"
  shows "tinv (navigate route s)" "intervals (navigate route s) = []"
  using assms by (auto simp: tinv_def navigate_def timer_cleanup_def clearInterval_def)

lemma tinv_handle:
  assumes "tinv s"
  shows "tinv (handle e s)"
  using timer_part_handle [of e s] assms tinv_cong tinv_navigate(1) by metis

lemma tinv_commit:
  assumes "tinv s"
  shows "tinv (commit s)"
proof (cases "effectDeps s = (timeLeft s, phase s)")
  case True
  then show ?thesis using assms by (simp add: commit_def)
next
  case False
  let ?s1 = "(if effectCleanup s then timer_cleanup s else s)\<lparr> effectDeps := (timeLeft s, phase s) \<rparr>"
  have 1: "intervals ?s1 = []"
    using assms by (auto simp: tinv_def timer_cleanup_def clearInterval_def)
  have 2: "timeLeft ?s1 = timeLeft s" "phase ?s1 = phase s"
    "effectDeps ?s1 = (timeLeft s, phase s)"
    by (simp_all add: timer_cleanup_def clearInterval_def split: option.splits)
  have "tinv (timer_effect ?s1)"
    unfolding tinv_def timer_effect_def using 1 2 by (simp add: Let_def)
  then show ?thesis using False by (simp add: commit_def)
qed

lemma synced_commit: "synced (commit s)"
  by (simp add: synced_def commit_def timer_effect_def timer_cleanup_def clearInterval_def
        split: option.splits)

lemma navigated_commit: "navigated (commit s) = navigated s"
  by (simp add: commit_def timer_effect_def timer_cleanup_def clearInterval_def
        split: option.splits)

lemma cinv_cstep:
  assumes "cinv s"
  shows "cinv (cstep s e)"
proof (cases "navigated s = None")
  case False
  then show ?thesis using assms by (simp add: cstep_def)
next
  case True
  from assms have t: "tinv (handle e s)" by (simp add: cinv_def tinv_handle)
  show ?thesis
  proof (cases "navigated (handle e s) = None")
    case False
    then have "cstep s e = handle e s" using True by (simp add: cstep_def Let_def)
    then show ?thesis using False t by (auto simp: cinv_def)
  next
    case n: True
    then have "cstep s e = commit (handle e s)" using True by (simp add: cstep_def Let_def)
    then show ?thesis
      using tinv_commit [OF t] synced_commit by (simp add: cinv_def)
  qed
qed

lemma cinv_cinit: "cinv (cinit a b c)"
  by (simp add: cinv_def tinv_def synced_def cinit_def)

lemma cexec_Nil [simp]: "cexec s [] = s"
  by (simp add: cexec_def)

lemma cexec_Cons [simp]: "cexec s (e # es) = cexec (cstep s e) es"
  by (simp add: cexec_def)

lemma cinv_cexec: "cinv s \<Longrightarrow> cinv (cexec s es)"
  by (induction es arbitrary: s) (simp_all add: cinv_cstep)

subsection \<open>The time-up handler and the phase\<close>

lemma intervals_commit_changed:
  assumes "tinv s" "effectDeps s \<noteq> (timeLeft s, phase s)"
  shows "set (intervals s) \<inter> set (intervals (commit s)) = {}"
proof (cases "effectCleanup s")
  case False
  with assms(1) show ?thesis by (simp add: tinv_def)
next
  case True
  with assms(1) obtain t where t: "intervals s = [t]" "timerRef s = Some (tid t)"
    "tid t < nextInterval s"
    by (auto simp: tinv_def)
  then have "intervals (commit s) = [] \<or>
      intervals (commit s) = [\<lparr> tid = nextInterval s, seen_phase = phase s \<rparr>]"
    using assms(2) True
    by (simp add: commit_def timer_effect_def timer_cleanup_def clearInterval_def)
  with t show ?thesis by auto
qed

lemma timeUps_commit: "timeUps (commit s) = timeUps s"
  by (simp add: commit_def timer_effect_def timer_cleanup_def clearInterval_def
        split: option.splits)

lemma phase_commit: "phase (commit s) = phase s"
  by (simp add: commit_def timer_effect_def timer_cleanup_def clearInterval_def
        split: option.splits)

lemma timeUps_handleTimeUp: "timeUps (handleTimeUp p now s) = timeUps s"
  by (cases p) (simp_all add: setTimeout_def)

lemma timeUps_run_delayed: "timeUps (run_delayed d early now s) = timeUps s"
  by (cases d) (simp_all add: transitionToPart3_def setTimeout_def continueCompleteTest_def)

lemma timeUps_tick:
  "timeUps (tick t early now s)
     = (if timeLeft s \<le> 1 then timeUps s @ [seen_phase t] else timeUps s)"
  by (simp add: tick_def Let_def timeUps_handleTimeUp)

lemma timeLeft_handleTimeUp:
  "timeLeft (handleTimeUp p now s) = timeLeft s \<or>
   timeLeft (handleTimeUp p now s) = part2_speakTime"
  by (cases p) (simp_all add: setTimeout_def)

lemma timeLeft_tick_zero:
  assumes "timeLeft s \<le> 1"
  shows "timeLeft (tick t early now s) = 0 \<or> timeLeft (tick t early now s) = part2_speakTime"
  using assms timeLeft_handleTimeUp [of "seen_phase t" now "s\<lparr> timeLeft := 0 \<rparr>"]
  by (auto simp: tick_def Let_def)

lemma find_timer:
  assumes "intervals s = [t]"
  shows "find (\<lambda>x. tid x = i) (intervals s) = (if tid t = i then Some t else None)"
  using assms by simp

lemma timeUps_handle:
  assumes "cinv s" "navigated s = None"
  shows "timeUps (handle e s) = (if zero_tick s e then timeUps s @ [phase s] else timeUps s)"
proof (cases e)
  case (Timeout d early now)
  then show ?thesis by (simp add: timeUps_run_delayed)
next
  case (Tick i early now)
  show ?thesis
  proof (cases "effectCleanup s")
    case False
    with assms(1) have "intervals s = []" by (simp add: cinv_def tinv_def)
    then show ?thesis using Tick by simp
  next
    case True
    with assms obtain t where t: "intervals s = [t]" "seen_phase t = phase s"
      by (auto simp: cinv_def tinv_def synced_def)
    then show ?thesis
      using Tick assms(2) by (simp add: timeUps_tick)
  qed
next
  case (SubmissionSettled ok)
  then show ?thesis
    by (simp add: submissionFailed_def submissionSucceeded_def navigate_def
          timer_cleanup_def clearInterval_def split: option.splits)
qed (simp_all add: handler_defs)

lemma timeUps_cstep:
  assumes "cinv s"
  shows "timeUps (cstep s e) = (if zero_tick s e then timeUps s @ [phase s] else timeUps s)"
proof (cases "navigated s = None")
  case False
  then show ?thesis by (cases e) (simp_all add: cstep_def)
next
  case True
  then show ?thesis
    using timeUps_handle [OF assms True, of e]
    by (simp add: cstep_def Let_def timeUps_commit)
qed

lemma phase_change_clears:
  assumes "cinv s" "phase (cstep s e) \<noteq> phase s"
  shows "set (intervals s) \<inter> set (intervals (cstep s e)) = {}"
proof -
  have n: "navigated s = None"
  proof (rule ccontr)
    assume "navigated s \<noteq> None"
    then have "cstep s e = s" by (simp add: cstep_def)
    with assms(2) show False by simp
  qed
  with assms(1) have sy: "effectDeps s = (timeLeft s, phase s)" and t: "tinv s"
    by (simp_all add: cinv_def synced_def)
  from timer_part_handle [of e s] show ?thesis
  proof
    assume a: "timer_part (handle e s) = timer_part s \<and> navigated (handle e s) = navigated s"
    with n have c: "cstep s e = commit (handle e s)" by (simp add: cstep_def Let_def)
    with assms(2) have "phase (handle e s) \<noteq> phase s" by (simp add: phase_commit)
    with a sy have "effectDeps (handle e s) \<noteq> (timeLeft (handle e s), phase (handle e s))"
      by (auto simp: timer_part_def)
    moreover have "tinv (handle e s)" using t by (rule tinv_handle)
    ultimately have "set (intervals (handle e s)) \<inter> set (intervals (commit (handle e s))) = {}"
      by (intro intervals_commit_changed)
    with a c show ?thesis by (simp add: timer_part_def)
  next
    assume "\<exists>route s0. handle e s = navigate route s0 \<and> timer_part s0 = timer_part s \<and>
      timeUps s0 = timeUps s \<and> phase s0 = phase s"
    then obtain route s0 where h: "handle e s = navigate route s0" "phase s0 = phase s"
      by blast
    then have "cstep s e = navigate route s0"
      using n by (simp add: cstep_def Let_def navigate_def)
    with h(2) assms(2) show ?thesis
      by (simp add: navigate_def timer_cleanup_def clearInterval_def split: option.splits if_splits)
  qed
qed

lemma zero_tick_clears:
  assumes "cinv s" "zero_tick s e"
  shows "set (intervals s) \<inter> set (intervals (cstep s e)) = {}"
proof -
  from assms(2) obtain i early now where e: "e = Tick i early now"
    and n: "navigated s = None" and i: "i \<in> tid ` set (intervals s)" and z: "timeLeft s \<le> 1"
    by (cases e) auto
  from assms(1) n have sy: "effectDeps s = (timeLeft s, phase s)" and t: "tinv s"
    by (simp_all add: cinv_def synced_def)
  from i t obtain tm where tm: "intervals s = [tm]" "tid tm = i" "0 < timeLeft s"
    using sy by (auto simp: tinv_def split: if_splits)
  then have h: "handle e s = tick tm early now s" using e by simp
  have tp: "timer_part (handle e s) = timer_part s" unfolding h by (rule timer_part_tick)
  have nn: "navigated (handle e s) = None" unfolding h using n by (simp add: navigated_tick)
  have "timeLeft (handle e s) \<noteq> timeLeft s"
    unfolding h using timeLeft_tick_zero [OF z, of tm early now] tm(3) z
    by (auto simp: part2_speakTime_def)
  with tp sy have "effectDeps (handle e s) \<noteq> (timeLeft (handle e s), phase (handle e s))"
    by (auto simp: timer_part_def)
  moreover have "tinv (handle e s)" using t by (rule tinv_handle)
  ultimately have "set (intervals (handle e s)) \<inter> set (intervals (commit (handle e s))) = {}"
    by (intro intervals_commit_changed)
  moreover have "cstep s e = commit (handle e s)" using n nn by (simp add: cstep_def Let_def)
  ultimately show ?thesis using tp by (simp add: timer_part_def)
qed

lemma at_most_one_timer: "cinv s \<Longrightarrow> length (intervals s) \<le> 1"
  by (auto simp: cinv_def tinv_def split: if_splits)

subsection \<open>The start overlay during a submission\<close>

lemma overlay_handleTimeUp:
  "showStartOverlay (handleTimeUp p now s) = showStartOverlay s"
  "awaiting (handleTimeUp p now s) = awaiting s"
  "\<exists>ds. pending (handleTimeUp p now s) = pending s @ ds \<and> (\<forall>d\<in>set ds. \<not> is_continue d)"
  by (cases p; simp add: setTimeout_def)+

lemma overlay_inv_tick: "overlay_inv s \<Longrightarrow> overlay_inv (tick t early now s)"
  using overlay_handleTimeUp [of "seen_phase t" now s]
    overlay_handleTimeUp [of "seen_phase t" now "s\<lparr> timeLeft := 0 \<rparr>"]
  by (auto simp: overlay_inv_def tick_def Let_def)

lemma overlay_inv_run_delayed:
  assumes "overlay_inv s" "k < length (pending s)"
  shows "overlay_inv (run_delayed (pending s ! k) early now
           (s\<lparr> pending := take k (pending s) @ drop (Suc k) (pending s) \<rparr>))"
proof -
  let ?s = "s\<lparr> pending := take k (pending s) @ drop (Suc k) (pending s) \<rparr>"
  have sub: "set (pending ?s) \<subseteq> set (pending s)"
    by (auto dest: in_set_takeD in_set_dropD)
  have mem: "pending s ! k \<in> set (pending s)" using assms(2) by simp
  show ?thesis
  proof (cases "pending s ! k")
    case (ContinueCompleteTest recs)
    with mem assms(1) have "\<not> showStartOverlay s" by (force simp: overlay_inv_def)
    then show ?thesis using ContinueCompleteTest
      by (simp add: overlay_inv_def continueCompleteTest_def)
  qed (use assms(1) sub in \<open>auto simp: overlay_inv_def transitionToPart3_def setTimeout_def\<close>)
qed

lemma overlay_inv_handle: "overlay_inv s \<Longrightarrow> overlay_inv (handle e s)"
proof (cases e)
  case (Timeout k early now)
  assume "overlay_inv s"
  then show ?thesis using Timeout by (simp add: overlay_inv_run_delayed)
next
  case (Tick i early now)
  assume "overlay_inv s"
  then show ?thesis using Tick by (simp add: overlay_inv_tick split: option.splits)
next
  case (SubmissionSettled ok)
  assume "overlay_inv s"
  then show ?thesis using SubmissionSettled
    by (auto simp: overlay_inv_def submissionFailed_def submissionSucceeded_def navigate_def
          timer_cleanup_def clearInterval_def split: option.splits)
qed (auto simp: overlay_inv_def handler_defs)

lemma overlay_inv_commit: "overlay_inv (commit s) = overlay_inv s"
  by (simp add: overlay_inv_def commit_def timer_effect_def timer_cleanup_def clearInterval_def
        split: option.splits)

lemma overlay_inv_cstep: "overlay_inv s \<Longrightarrow> overlay_inv (cstep s e)"
  by (simp add: cstep_def Let_def overlay_inv_commit overlay_inv_handle)

lemma overlay_inv_cexec: "overlay_inv s \<Longrightarrow> overlay_inv (cexec s es)"
  by (induction es arbitrary: s) (simp_all add: overlay_inv_cstep)

lemma overlay_inv_cinit: "overlay_inv (cinit a b c)"
  by (simp add: overlay_inv_def cinit_def)

section \<open>What the audio clip queue guarantees\<close>

text \<open>
  Claim C3.  A run is in progress (its invocation \<open>r\<close> waits for the audio of clip \<open>idx r\<close>)
  when \<open>playClips\<close> is called again with a non-empty list.  Whatever happens afterwards, no
  entry of the first run for a clip after \<open>idx r\<close> is ever written: no later clip of it is
  visited or played.  The first run is never the current session again, and at every later
  moment at most one waiting invocation carries the current value of \<open>playSessionRef\<close>, that
  is, at most one run is active.
\<close>

theorem second_playClips_supersedes:
  assumes "c = exec init ins" and "r \<in> set (runs c)" and "cs \<noteq> []"
  shows "(\<forall>later j k. idx r < j \<longrightarrow>
        Ev (sessionId r) j k \<notin> set (trace (exec c (PlayClips m cs rc # later)))) \<and>
    (\<forall>later. sessionId r \<noteq> playSessionRef (exec c (PlayClips m cs rc # later)) \<and>
       length (filter (\<lambda>x. sessionId x = playSessionRef (exec c (PlayClips m cs rc # later)))
                 (runs (exec c (PlayClips m cs rc # later)))) \<le> 1)"
proof -
  have g: "ginv c" unfolding assms(1) by (rule ginv_exec)
  then have "stale (sessionId r) (idx r) (playClips m cs rc c)"
    using assms(2,3) by (rule stale_after_playClips)
  then have st: "\<And>later. stale (sessionId r) (idx r) (exec c (PlayClips m cs rc # later))"
    by (simp add: stale_exec)
  have 1: "\<And>later j k. idx r < j \<Longrightarrow>
      Ev (sessionId r) j k \<notin> set (trace (exec c (PlayClips m cs rc # later)))"
    using st by (fastforce simp: stale_def)
  have 2: "\<And>later. sessionId r \<noteq> playSessionRef (exec c (PlayClips m cs rc # later))"
    using st by (fastforce simp: stale_def)
  have 3: "length (filter (\<lambda>x. sessionId x
         = playSessionRef (exec c (PlayClips m cs rc # later)))
                 (runs (exec c (PlayClips m cs rc # later)))) \<le> 1" for later
  proof -
    have "ginv (exec c (PlayClips m cs rc # later))"
      using g by (rule ginv_exec_from)
    then have "distinct (map sessionId (runs (exec c (PlayClips m cs rc # later))))"
      by (simp add: ginv_def inv_sess_def)
    from at_most_one_filter [OF this] show ?thesis by simp
  qed
  from 1 2 3 show ?thesis by blast
qed

theorem second_playClips_supersedes_witness:
  "run_a \<in> set (runs (exec init [PlayClips False [clip_a, clip_b] 1])) \<and>
   [clip_b] \<noteq> [] \<and>
   Ev 1 1 Visit \<notin> set (trace (exec init
      [PlayClips False [clip_a, clip_b] 1, PlayClips True [clip_b] 0, AudioEnded 0])) \<and>
   length (filter (\<lambda>x. sessionId x = playSessionRef (exec init
      [PlayClips False [clip_a, clip_b] 1, PlayClips True [clip_b] 0]))
     (runs (exec init [PlayClips False [clip_a, clip_b] 1, PlayClips True [clip_b] 0]))) \<le> 1"
proof -
  let ?ins = "[PlayClips False [clip_a, clip_b] 1]"
  have r: "run_a \<in> set (runs (exec init ?ins))"
    by (simp add: queue_eval run_a_def)
  have ne: "[clip_b] \<noteq> []" by simp
  note t = second_playClips_supersedes [OF refl r ne, of True 0]
  from t have "\<forall>later j k. idx run_a < j \<longrightarrow> Ev (sessionId run_a) j k
      \<notin> set (trace (exec (exec init ?ins) (PlayClips True [clip_b] 0 # later)))"
    by blast
  then have "idx run_a < 1 \<longrightarrow> Ev (sessionId run_a) 1 Visit
      \<notin> set (trace (exec (exec init ?ins) (PlayClips True [clip_b] 0 # [AudioEnded 0])))"
    by blast
  then have 1: "Ev 1 1 Visit
      \<notin> set (trace (exec (exec init ?ins) [PlayClips True [clip_b] 0, AudioEnded 0]))"
    by (simp add: run_a_def)
  from t have "\<forall>later. length (filter (\<lambda>x. sessionId x
         = playSessionRef (exec (exec init ?ins) (PlayClips True [clip_b] 0 # later)))
       (runs (exec (exec init ?ins) (PlayClips True [clip_b] 0 # later)))) \<le> 1"
    by blast
  then have 2: "length (filter (\<lambda>x. sessionId x
         = playSessionRef (exec (exec init ?ins) (PlayClips True [clip_b] 0 # [])))
       (runs (exec (exec init ?ins) (PlayClips True [clip_b] 0 # [])))) \<le> 1"
    by blast
  have e1: "exec (exec init ?ins) [PlayClips True [clip_b] 0, AudioEnded 0]
      = exec init [PlayClips False [clip_a, clip_b] 1, PlayClips True [clip_b] 0, AudioEnded 0]"
    by (simp add: exec_def)
  have e2: "exec (exec init ?ins) [PlayClips True [clip_b] 0]
      = exec init [PlayClips False [clip_a, clip_b] 1, PlayClips True [clip_b] 0]"
    by (simp add: exec_def)
  from 1 2 r show ?thesis unfolding e1 e2 by simp
qed

text \<open>
  Claim C4.  \<open>stop()\<close> is called while invocation \<open>r\<close> waits for the audio of clip \<open>idx r\<close>.
  On return from \<open>stop\<close>, \<open>isSpeaking\<close> is false and \<open>currentClipKey\<close> is null, and whatever
  happens afterwards no entry of that run for a clip after \<open>idx r\<close> is ever written: the clips
  \<open>idx r + 1\<close>, ... never start.
\<close>

theorem stop_prevents_later_clips:
  assumes "c = exec init ins" and "r \<in> set (runs c)"
  shows "isSpeaking (stop c) = False \<and> currentClipKey (stop c) = None \<and>
    (\<forall>later j k. idx r < j \<longrightarrow>
        Ev (sessionId r) j k \<notin> set (trace (exec c (Stop # later))))"
proof -
  have "ginv c" unfolding assms(1) by (rule ginv_exec)
  then have "stale (sessionId r) (idx r) (stop c)"
    using assms(2) by (rule stale_after_stop)
  then have "\<And>later. stale (sessionId r) (idx r) (exec (stop c) later)"
    by (rule stale_exec)
  then have "\<And>later j k. idx r < j \<Longrightarrow>
      Ev (sessionId r) j k \<notin> set (trace (exec c (Stop # later)))"
    by (fastforce simp: stale_def)
  then show ?thesis by (simp add: stop_def)
qed

theorem stop_prevents_later_clips_witness:
  "run_a \<in> set (runs (exec init [PlayClips False [clip_a, clip_b] 1])) \<and>
   isSpeaking (stop (exec init [PlayClips False [clip_a, clip_b] 1])) = False \<and>
   currentClipKey (stop (exec init [PlayClips False [clip_a, clip_b] 1])) = None \<and>
   Ev 1 1 Visit \<notin> set (trace (exec init
      [PlayClips False [clip_a, clip_b] 1, Stop, AudioEnded 0]))"
proof -
  let ?ins = "[PlayClips False [clip_a, clip_b] 1]"
  have r: "run_a \<in> set (runs (exec init ?ins))"
    by (simp add: queue_eval run_a_def)
  note t = stop_prevents_later_clips [OF refl r]
  from t have "\<forall>later j k. idx run_a < j \<longrightarrow>
        Ev (sessionId run_a) j k \<notin> set (trace (exec (exec init ?ins) (Stop # later)))"
    by blast
  then have "idx run_a < 1 \<longrightarrow> Ev (sessionId run_a) 1 Visit
      \<notin> set (trace (exec (exec init ?ins) (Stop # [AudioEnded 0])))"
    by blast
  then have "Ev 1 1 Visit \<notin> set (trace (exec (exec init ?ins) [Stop, AudioEnded 0]))"
    by (simp add: run_a_def)
  moreover have "exec (exec init ?ins) [Stop, AudioEnded 0]
      = exec init [PlayClips False [clip_a, clip_b] 1, Stop, AudioEnded 0]"
    by (simp add: exec_def)
  ultimately show ?thesis using r t by simp
qed

text \<open>
  Claim C5, at a concrete input: \<open>playClips([a, b], 1)\<close>, then \<open>stop()\<close>, then the audio of the
  first attempt fails.  The session counter is 2 and the run belongs to session 1, yet the
  run decodes clip \<open>a\<close> again and starts a second attempt (object URL 1): the \<open>while\<close> loop
  of line 39 does not compare the session counter, only the head of the \<open>for\<close> loop does.
\<close>

theorem cancelled_run_retries_clip_in_flight:
  "trace (exec init [PlayClips False [clip_a, clip_b] 1, Stop, AudioError 0])
     = [Ev 1 0 Visit, Ev 1 0 (Attempt 0 False), Ev 1 0 (Errored 0), Ev 1 0 (Revoke 0),
        Ev 1 0 (Attempt 1 False)] \<and>
   playSessionRef (exec init [PlayClips False [clip_a, clip_b] 1, Stop]) = 2"
  by (simp add: queue_eval)

text \<open>
  Claim C6.  In every reachable state: the attempts made so far were given the object URLs
  \<open>0, 1, ...\<close> in this order, one fresh URL for each attempt; a URL has been revoked exactly
  once if it was handed out and its attempt is no longer in flight, and never otherwise;
  and when the audio of any attempt in flight settles, by \<open>onended\<close> or by an error, in the
  current session or in an abandoned one, its URL has been revoked exactly once from then on.
\<close>

theorem attempt_url_released_once:
  assumes "c = exec init ins"
  shows "decoded (trace c) = [0..<nextUrl c] \<and>
    (\<forall>u. count_list (revoked (trace c)) u
          = (if u < nextUrl c \<and> u \<notin> set (inflight c) then 1 else 0)) \<and>
    (\<forall>r\<in>set (runs c). \<forall>ok later.
        count_list (revoked (trace (exec (settle (url r) ok c) later))) (url r) = 1)"
proof -
  have i: "inv_url c" unfolding assms by (rule inv_url_exec)
  then have "decoded (trace c) = [0..<nextUrl c]" by (simp add: inv_url_def)
  with i show ?thesis
    by (simp add: count_revoked revoked_after_settle)
qed

theorem attempt_url_released_once_witness:
  "run_a \<lparr> attempts := 1, url := 1 \<rparr>
     \<in> set (runs (exec init [PlayClips False [clip_a, clip_b] 1, Stop, AudioError 0])) \<and>
   count_list (revoked (trace (exec init
     [PlayClips False [clip_a, clip_b] 1, Stop, AudioError 0, AudioError 1]))) 1 = 1"
proof -
  let ?ins = "[PlayClips False [clip_a, clip_b] 1, Stop, AudioError 0]"
  let ?r = "run_a \<lparr> attempts := 1, url := 1 \<rparr>"
  have r: "?r \<in> set (runs (exec init ?ins))"
    by (simp add: queue_eval run_a_def)
  have "\<forall>r\<in>set (runs (exec init ?ins)). \<forall>ok later.
        count_list (revoked (trace (exec (settle (url r) ok (exec init ?ins)) later))) (url r) = 1"
    using attempt_url_released_once [OF refl, of ?ins] by blast
  with r have "count_list (revoked (trace (exec (settle (url ?r) False (exec init ?ins)) [])))
      (url ?r) = 1"
    by blast
  moreover have "exec (settle (url ?r) False (exec init ?ins)) []
      = exec init [PlayClips False [clip_a, clip_b] 1, Stop, AudioError 0, AudioError 1]"
    by (simp add: exec_def run_a_def)
  ultimately show ?thesis using r by (simp add: run_a_def)
qed

text \<open>
  Claim C10.  \<open>playClips\<close> with an empty list returns the state it was given: \<open>isSpeaking\<close>,
  \<open>currentClipKey\<close>, \<open>failedClips\<close>, the session counter and the waiting invocations are
  what they were, and everything that happens later happens as if the call had not been
  made.
\<close>

theorem playClips_empty_is_noop:
  "playClips m [] rc c = c \<and> (\<forall>later. exec c (PlayClips m [] rc # later) = exec c later)"
  by (simp add: playClips_def)

text \<open>
  Claim C1.  \<open>playClips\<close> is called with a non-empty list in any reachable state (earlier
  runs may still be waiting), and afterwards nothing but audio elements firing happens: no
  \<open>stop()\<close>, no later \<open>playClips\<close>.  At every such moment the entries of the run are ordered
  by clip index, so every entry of a clip, the settling and the revoking of its last attempt
  included, comes before every entry of the next clip; and they follow the protocol
  \<open>follows\<close>: an attempt starts only when no attempt of the run is playing or waiting for
  its URL to be revoked.  While the run waits for the audio of clip \<open>i\<close> it has visited
  \<open>0, ..., i\<close>, each once and in this order; when it has returned it has visited
  \<open>0, ..., length cs - 1\<close>, each once and in this order, whichever attempts failed.  And the
  run does return: whatever the outcomes of its attempts are, once
  \<open>length cs * (retryCount + 1)\<close> of them have settled it has returned and has visited
  every clip.
\<close>

theorem playClips_visits_every_clip_in_order:
  assumes "c0 = exec init before" and "cs \<noteq> []" and "sid = playSessionRef c0 + 1"
    and "\<forall>x\<in>set ins. is_settle x" and "c = exec c0 (PlayClips m cs rc # ins)"
  shows "sorted (map ev_clip (ptrace sid (trace c))) \<and>
    accepts Idle (map ev_kind (ptrace sid (trace c))) \<noteq> None \<and>
    (\<forall>r\<in>set (runs c). sessionId r = sid \<longrightarrow> visited sid (trace c) = [0..<Suc (idx r)]) \<and>
    ((\<forall>r\<in>set (runs c). sessionId r \<noteq> sid) \<longrightarrow>
       visited sid (trace c) = [0..<length cs] \<and>
       accepts Idle (map ev_kind (ptrace sid (trace c))) = Some Idle) \<and>
    (\<forall>oks. length cs * nat (rc + 1) \<le> length oks \<longrightarrow>
       (\<forall>r\<in>set (runs (drive oks sid (playClips m cs rc c0))). sessionId r \<noteq> sid) \<and>
       visited sid (trace (drive oks sid (playClips m cs rc c0))) = [0..<length cs])"
proof -
  have g: "ginv c0" unfolding assms(1) by (rule ginv_exec)
  have u: "inv_url c0" unfolding assms(1) by (rule inv_url_exec)
  have at: "inv_att c0" unfolding assms(1) by (rule inv_att_exec)
  let ?c1 = "playClips m cs rc c0"
  have s1: "shape sid cs ?c1"
    unfolding assms(3) using g assms(2) by (rule shape_start)
  have p1: "playSessionRef ?c1 = sid"
    unfolding assms(3) using assms(2) by (rule psr_playClips)
  have core: "sorted (map ev_clip (ptrace sid (trace d))) \<and>
      accepts Idle (map ev_kind (ptrace sid (trace d))) \<noteq> None \<and>
      (\<forall>r\<in>set (runs d). sessionId r = sid \<longrightarrow> visited sid (trace d) = [0..<Suc (idx r)]) \<and>
      ((\<forall>r\<in>set (runs d). sessionId r \<noteq> sid) \<longrightarrow>
         visited sid (trace d) = [0..<length cs] \<and>
         accepts Idle (map ev_kind (ptrace sid (trace d))) = Some Idle)"
    if d: "d = exec ?c1 js" and js: "\<forall>x\<in>set js. is_settle x" for d js
  proof -
    have sh: "shape sid cs d" unfolding d using s1 by (rule shape_exec)
    have ps: "playSessionRef d = sid" unfolding d using js p1 by (simp add: psr_settles)
    show ?thesis
    proof (cases "pruns sid d")
      case Nil
      with sh ps have "prog cs (ptrace sid (trace d)) (length cs) Idle"
        by (auto simp: shape_def)
      moreover from Nil have "\<forall>r\<in>set (runs d). sessionId r \<noteq> sid"
        by (simp add: pruns_def filter_empty_conv)
      ultimately show ?thesis by (auto simp: prog_def visited_def)
    next
      case (Cons r rs)
      with sh have p: "pruns sid d = [r]" by (auto simp: shape_def split: list.splits)
      with sh have pr: "prog cs (ptrace sid (trace d)) (Suc (idx r)) (Playing (url r))"
        by (simp add: shape_def)
      have mem: "x = r" if "x \<in> set (runs d)" "sessionId x = sid" for x
      proof -
        from that have "x \<in> set (pruns sid d)" by (simp add: pruns_def)
        with p show ?thesis by simp
      qed
      from p have "r \<in> set (pruns sid d)" by simp
      then have rin: "r \<in> set (runs d)" "sessionId r = sid" by (simp_all add: pruns_def)
      from pr have "visited sid (trace d) = [0..<Suc (idx r)]"
        and "sorted (map ev_clip (ptrace sid (trace d)))"
        and "accepts Idle (map ev_kind (ptrace sid (trace d))) \<noteq> None"
        by (simp_all add: prog_def visited_def)
      then show ?thesis using mem rin by blast
    qed
  qed
  have c: "c = exec ?c1 ins" unfolding assms(5) by simp
  have drv: "(\<forall>r\<in>set (runs (drive oks sid ?c1)). sessionId r \<noteq> sid) \<and>
       visited sid (trace (drive oks sid ?c1)) = [0..<length cs]"
    if len: "length cs * nat (rc + 1) \<le> length oks" for oks
  proof -
    have "remaining sid ?c1 \<le> int (length cs) * max 0 (rc + 1)"
      unfolding assms(3) using g assms(2) by (rule remaining_start)
    also have "\<dots> = int (length cs * nat (rc + 1))" by (simp add: max_def)
    also have "\<dots> \<le> int (length oks)" using len by (simp only: of_nat_le_iff)
    finally have "remaining sid ?c1 \<le> int (length oks)" .
    then have ret: "\<forall>r\<in>set (runs (drive oks sid ?c1)). sessionId r \<noteq> sid"
      using g u at by (intro drive_returns ginv_playClips inv_url_playClips inv_att_playClips)
    from drive_exec [of oks sid ?c1] obtain js
      where js: "\<forall>x\<in>set js. is_settle x" "drive oks sid ?c1 = exec ?c1 js" by blast
    from core [OF js(2) js(1)] ret show ?thesis by blast
  qed
  from core [OF c assms(4)] drv show ?thesis by blast
qed

theorem playClips_visits_every_clip_in_order_witness:
  "[clip_a, clip_b] \<noteq> [] \<and>
   list_all is_settle [AudioError 0, AudioError 1, AudioEnded 2] \<and>
   runs (exec init
       [PlayClips False [clip_a, clip_b] 1, AudioError 0, AudioError 1, AudioEnded 2]) = [] \<and>
   visited 1 (trace (exec init
       [PlayClips False [clip_a, clip_b] 1, AudioError 0, AudioError 1, AudioEnded 2]))
     = [0, 1] \<and>
   visited 1 (trace (drive [False, True, False, False] 1
       (playClips False [clip_a, clip_b] 1 init))) = [0, 1]"
proof -
  let ?ins = "[AudioError 0, AudioError 1, AudioEnded 2]"
  let ?c = "exec init (PlayClips False [clip_a, clip_b] 1 # ?ins)"
  have 0: "init = exec init []" by simp
  have 1: "[clip_a, clip_b] \<noteq> []" by simp
  have 2: "\<forall>x\<in>set ?ins. is_settle x" by simp
  have 3: "(1::int) = playSessionRef init + 1" by (simp add: init_def)
  have r: "runs ?c = []" by (simp add: queue_eval)
  then have 4: "\<forall>r\<in>set (runs ?c). sessionId r \<noteq> 1" by simp
  note t = playClips_visits_every_clip_in_order [OF 0 1 3 2 refl, of False 1]
  from t 4 have "visited 1 (trace ?c) = [0..<length [clip_a, clip_b]]" by blast
  then have v: "visited 1 (trace ?c) = [0, 1]" by (simp add: upt_rec)
  have 5: "length [clip_a, clip_b] * nat (1 + 1) \<le> length [False, True, False, False]"
    by simp
  from t 5 have "visited 1 (trace (drive [False, True, False, False] 1
       (playClips False [clip_a, clip_b] 1 init))) = [0..<length [clip_a, clip_b]]"
    by blast
  then have d: "visited 1 (trace (drive [False, True, False, False] 1
       (playClips False [clip_a, clip_b] 1 init))) = [0, 1]"
    by (simp add: upt_rec)
  from 1 r v d show ?thesis by simp
qed

subsection \<open>The attempts of one run and the shared list of failed clips\<close>

text \<open>
  \<open>playClips\<close> is called with a non-empty list and a retry bound \<open>retryCount \<ge> 0\<close> in any
  reachable state; afterwards anything may happen, calls of \<open>stop\<close> and \<open>playClips\<close>
  included.  At every later moment and for every clip index \<open>i\<close> of the run: at most
  \<open>retryCount + 1\<close> attempts have been started; the run has appended the clip to
  \<open>failedClips\<close> at most once, and if so no attempt succeeded and all \<open>retryCount + 1\<close>
  attempts were made and failed; the run has not appended a clip with a successful attempt;
  and it has appended exactly once a clip that it has visited and left without a successful
  attempt.  This counts what the run itself appends.  The list \<open>failedClips\<close> is shared by all
  runs: it is the list of the keys appended by the run, in list order, when no earlier run
  is still waiting at the call and only audio elements fire afterwards.
\<close>

lemma attempts_of_a_run:
  assumes "c0 = exec init before" and "cs \<noteq> []" and "0 \<le> rc"
    and "c = exec c0 (PlayClips m cs rc # ins)" and "sid = playSessionRef c0 + 1"
  shows "(\<forall>i. int (n_attempts sid i (trace c)) \<le> rc + 1) \<and>
    (\<forall>i. n_failed sid i (trace c) \<le> 1) \<and>
    (\<forall>i. n_failed sid i (trace c) = 1 \<longrightarrow>
        n_ended sid i (trace c) = 0 \<and> n_attempts sid i (trace c) = n_errors sid i (trace c) \<and>
        int (n_errors sid i (trace c)) = rc + 1) \<and>
    (\<forall>i. 0 < n_ended sid i (trace c) \<longrightarrow> n_failed sid i (trace c) = 0) \<and>
    (\<forall>i. i \<in> set (visited sid (trace c)) \<and>
         (\<forall>r\<in>set (runs c). sessionId r = sid \<longrightarrow> idx r \<noteq> i) \<and>
         n_ended sid i (trace c) = 0 \<longrightarrow> n_failed sid i (trace c) = 1) \<and>
    (runs c0 = [] \<and> (\<forall>x\<in>set ins. is_settle x) \<longrightarrow>
       failedClips c = failed_keys cs sid (trace c) (length cs))"
proof -
  have g: "ginv c0" unfolding assms(1) by (rule ginv_exec)
  then have "tally sid rc (playClips m cs rc c0)"
    unfolding assms(5) using assms(2) by (rule tally_start)
  then have t: "tally sid rc c"
    unfolding assms(4) by (simp add: tally_exec)
  have ok: "clip_ok rc sid (trace c) i" for i
    using t assms(3) by (rule tally_clip_ok)
  have 5: "n_failed sid i (trace c) = 1"
    if "i \<in> set (visited sid (trace c))"
      "\<forall>r\<in>set (runs c). sessionId r = sid \<longrightarrow> idx r \<noteq> i" "n_ended sid i (trace c) = 0" for i
    using t that by (rule tally_done)
  have 6: "failedClips c = failed_keys cs sid (trace c) (length cs)"
    if "runs c0 = []" "\<forall>x\<in>set ins. is_settle x"
  proof -
    have "alone sid cs (playClips m cs rc c0)"
      unfolding assms(5) using g assms(2) that(1) by (rule alone_start)
    then have "alone sid cs c"
      unfolding assms(4) using that(2) by (simp add: alone_settles)
    then show ?thesis by (rule alone_failedClips)
  qed
  from ok 5 6 show ?thesis
    unfolding clip_ok_def by blast
qed

text \<open>
  An instance: \<open>playClips([a, b], 1)\<close> in the initial state; both attempts of \<open>a\<close> fail and
  the first attempt of \<open>b\<close> ends.
\<close>

lemma attempts_of_a_run_example:
  "[clip_a, clip_b] \<noteq> [] \<and> (0::int) \<le> 1 \<and> runs init = [] \<and>
   list_all is_settle [AudioError 0, AudioError 1, AudioEnded 2] \<and>
   int (n_attempts 1 0 (trace (exec init
     [PlayClips False [clip_a, clip_b] 1, AudioError 0, AudioError 1, AudioEnded 2]))) \<le> 1 + 1 \<and>
   n_failed 1 0 (trace (exec init
     [PlayClips False [clip_a, clip_b] 1, AudioError 0, AudioError 1, AudioEnded 2])) = 1 \<and>
   n_failed 1 1 (trace (exec init
     [PlayClips False [clip_a, clip_b] 1, AudioError 0, AudioError 1, AudioEnded 2])) = 0 \<and>
   failedClips (exec init
     [PlayClips False [clip_a, clip_b] 1, AudioError 0, AudioError 1, AudioEnded 2]) = [''a'']"
proof -
  let ?ins = "[AudioError 0, AudioError 1, AudioEnded 2]"
  let ?c = "exec init (PlayClips False [clip_a, clip_b] 1 # ?ins)"
  have 0: "init = exec init []" by simp
  have 1: "[clip_a, clip_b] \<noteq> []" by simp
  have 2: "(0::int) \<le> 1" by simp
  have 3: "(1::int) = playSessionRef init + 1" by (simp add: init_def)
  have r0: "runs init = []" by (simp add: init_def)
  have st: "\<forall>x\<in>set ?ins. is_settle x" by simp
  have tr: "trace ?c = [Ev 1 0 Visit, Ev 1 0 (Attempt 0 False), Ev 1 0 (Errored 0),
       Ev 1 0 (Revoke 0), Ev 1 0 (Attempt 1 False), Ev 1 0 (Errored 1),
       Ev 1 0 (Revoke 1), Ev 1 0 Failed, Ev 1 1 Visit,
       Ev 1 1 (Attempt 2 False), Ev 1 1 (Ended 2), Ev 1 1 (Revoke 2)]"
    by (simp add: queue_eval)
  have rs: "runs ?c = []" by (simp add: queue_eval)
  note t = attempts_of_a_run [OF 0 1 2 refl 3, of False ?ins]
  from t have a: "int (n_attempts 1 0 (trace ?c)) \<le> 1 + 1" by blast
  have v: "0 \<in> set (visited 1 (trace ?c))"
    unfolding tr by (simp add: visited_def ptrace_def)
  have e: "n_ended 1 0 (trace ?c) = 0"
    unfolding tr by (simp add: n_defs cnt_def)
  from t have t5: "\<forall>i. i \<in> set (visited 1 (trace ?c)) \<and>
         (\<forall>r\<in>set (runs ?c). sessionId r = 1 \<longrightarrow> idx r \<noteq> i) \<and>
         n_ended 1 i (trace ?c) = 0 \<longrightarrow> n_failed 1 i (trace ?c) = 1"
    by blast
  have nr: "\<forall>r\<in>set (runs ?c). sessionId r = 1 \<longrightarrow> idx r \<noteq> 0"
    unfolding rs by simp
  from t5 v nr e have f0: "n_failed 1 0 (trace ?c) = 1" by blast
  have e1: "0 < n_ended 1 1 (trace ?c)"
    unfolding tr by (simp add: n_defs cnt_def)
  with t have f1: "n_failed 1 1 (trace ?c) = 0" by blast
  from t r0 st have "failedClips ?c = failed_keys [clip_a, clip_b] 1 (trace ?c)
      (length [clip_a, clip_b])" by blast
  then have "failedClips ?c = failed_keys [clip_a, clip_b] 1 (trace ?c) (Suc (Suc 0))"
    by simp
  then have fc: "failedClips ?c = [''a'']"
    unfolding failed_keys_Suc using f0 f1 by (simp add: failed_keys_def clip_a_def)
  show ?thesis
    using 1 r0 a f0 f1 fc by simp
qed

text \<open>
  Claim C2, at a concrete input: \<open>playClips([a], 0)\<close>, then \<open>playClips([a], 0)\<close> again while
  the audio of the first run plays, then the audio of the first run fails and the audio of
  the second run ends.  The second call empties \<open>failedClips\<close> and the only clip of the second
  run succeeds at its first attempt, yet \<open>failedClips\<close> is \<open>[a]\<close> when the second run has
  returned: the first run, superseded (session 1, the counter is 2), has used up its attempts
  and appends the key.  Lines 59 to 62 do not compare the session counter; the head of the
  \<open>for\<close> loop (line 32) and the final block (line 65) do.
\<close>

theorem superseded_run_appends_to_failedClips:
  "trace (exec init [PlayClips False [clip_a] 0, PlayClips False [clip_a] 0, AudioError 0,
      AudioEnded 1])
     = [Ev 1 0 Visit, Ev 1 0 (Attempt 0 False), Ev 2 0 Visit, Ev 2 0 (Attempt 1 False),
        Ev 1 0 (Errored 0), Ev 1 0 (Revoke 0), Ev 1 0 Failed,
        Ev 2 0 (Ended 1), Ev 2 0 (Revoke 1)] \<and>
   playSessionRef (exec init [PlayClips False [clip_a] 0, PlayClips False [clip_a] 0]) = 2 \<and>
   failedClips (exec init [PlayClips False [clip_a] 0, PlayClips False [clip_a] 0]) = [] \<and>
   failedClips (exec init [PlayClips False [clip_a] 0, PlayClips False [clip_a] 0, AudioError 0,
      AudioEnded 1]) = [key clip_a] \<and>
   runs (exec init [PlayClips False [clip_a] 0, PlayClips False [clip_a] 0, AudioError 0,
      AudioEnded 1]) = []"
  by (simp add: queue_eval)

section \<open>What the speaking test page guarantees\<close>

text \<open>
  Claim C9.  In every state the page can reach, at most one interval timer is running.
  Whenever an event changes the phase, the timer that was running before the event is not
  running after it, and at most one (new) timer is.  \<open>handleTimeUp\<close> is called exactly when
  the running timer fires with \<open>timeLeft <= 1\<close>, that is when the countdown reaches zero; it
  is called once, with the current phase, and the timer that fired is not running
  afterwards.  No other event calls it.
\<close>

theorem one_countdown_timer:
  assumes "s = cexec (cinit test_id tp df) es"
  shows "length (intervals s) \<le> 1 \<and>
    (\<forall>e. phase (cstep s e) \<noteq> phase s \<longrightarrow>
       set (intervals s) \<inter> set (intervals (cstep s e)) = {} \<and>
       length (intervals (cstep s e)) \<le> 1) \<and>
    (\<forall>e. timeUps (cstep s e)
          = (if zero_tick s e then timeUps s @ [phase s] else timeUps s)) \<and>
    (\<forall>e. zero_tick s e \<longrightarrow> set (intervals s) \<inter> set (intervals (cstep s e)) = {})"
proof -
  have c: "cinv s" unfolding assms by (rule cinv_cexec [OF cinv_cinit])
  then have c': "cinv (cstep s e)" for e by (rule cinv_cstep)
  show ?thesis
    using at_most_one_timer [OF c] at_most_one_timer [OF c'] phase_change_clears [OF c]
      timeUps_cstep [OF c] zero_tick_clears [OF c]
    by blast
qed

theorem one_countdown_timer_witness:
  "zero_tick (cexec (cinit ''t'' None None) (to_prep @ prep_ticks 59)) (Tick 60 False 74000) \<and>
   phase (cexec (cinit ''t'' None None) (to_prep @ prep_ticks 59)) = part2_prep \<and>
   phase (cstep (cexec (cinit ''t'' None None) (to_prep @ prep_ticks 59)) (Tick 60 False 74000))
     = part2_speaking \<and>
   timeUps (cstep (cexec (cinit ''t'' None None) (to_prep @ prep_ticks 59))
     (Tick 60 False 74000)) = [part2_prep] \<and>
   set (intervals (cexec (cinit ''t'' None None) (to_prep @ prep_ticks 59))) \<inter>
   set (intervals (cstep (cexec (cinit ''t'' None None) (to_prep @ prep_ticks 59))
     (Tick 60 False 74000))) = {}"
proof -
  let ?s = "cexec (cinit ''t'' None None) (to_prep @ prep_ticks 59)"
  let ?e = "Tick 60 False 74000"
  have z: "zero_tick ?s ?e" by code_simp
  have p: "phase ?s = part2_prep" by code_simp
  have p': "phase (cstep ?s ?e) = part2_speaking" by code_simp
  have u: "timeUps ?s = []" by code_simp
  note t = one_countdown_timer [OF refl, of "''t''" None None "to_prep @ prep_ticks 59"]
  from t have "timeUps (cstep ?s ?e) = (if zero_tick ?s ?e then timeUps ?s @ [phase ?s] else timeUps ?s)"
    by blast
  with z p u have 1: "timeUps (cstep ?s ?e) = [part2_prep]" by simp
  from p p' have "phase (cstep ?s ?e) \<noteq> phase ?s" by simp
  with t have 2: "set (intervals ?s) \<inter> set (intervals (cstep ?s ?e)) = {}" by blast
  from z p p' 1 2 show ?thesis by simp
qed

text \<open>
  Claim C8.  An evaluation request is awaited and fails.  The phase becomes
  \<open>part3_questions\<close>, whatever it was (\<open>submitting\<close> unless a delayed callback changed it); a
  toast "Submission Failed", "Please try again" is shown; the page is not left; the
  recordings of the parts and the buffered fragments are what they were before the failure;
  and the buttons that complete the test run \<open>handleCompleteTest\<close> again.
\<close>

theorem submission_failure_rolls_back:
  assumes "s = cexec (cinit test_id tp df) es" and "navigated s = None" and "0 < awaiting s"
  shows "phase (cstep s (SubmissionSettled False)) = part3_questions \<and>
    partRecordings (cstep s (SubmissionSettled False)) = partRecordings s \<and>
    audioChunksRef (cstep s (SubmissionSettled False)) = audioChunksRef s \<and>
    toasts (cstep s (SubmissionSettled False))
      = toasts s @ [\<lparr> title = ''Submission Failed'', description = ''Please try again'',
                      destructive = True \<rparr>] \<and>
    navigated (cstep s (SubmissionSettled False)) = None \<and>
    handle ClickComplete (cstep s (SubmissionSettled False))
      = handleCompleteTest (cstep s (SubmissionSettled False))"
proof -
  let ?f = "submissionFailed (s\<lparr> awaiting := awaiting s - 1 \<rparr>)"
  have "overlay_inv s" unfolding assms(1) by (rule overlay_inv_cexec [OF overlay_inv_cinit])
  with assms(3) have o: "\<not> showStartOverlay s" by (simp add: overlay_inv_def)
  have h: "handle (SubmissionSettled False) s = ?f"
    using assms(3) by simp
  have n: "navigated ?f = None" using assms(2) by (simp add: submissionFailed_def)
  have c: "cstep s (SubmissionSettled False) = commit ?f"
    using assms(2) n unfolding cstep_def h by (simp add: Let_def)
  have f: "phase (commit ?f) = part3_questions" "partRecordings (commit ?f) = partRecordings s"
    "audioChunksRef (commit ?f) = audioChunksRef s"
    "toasts (commit ?f) = toasts s @ [\<lparr> title = ''Submission Failed'',
        description = ''Please try again'', destructive = True \<rparr>]"
    "navigated (commit ?f) = None" "\<not> showStartOverlay (commit ?f)"
    using assms(2) o
    by (simp_all add: submissionFailed_def commit_def timer_effect_def timer_cleanup_def
          clearInterval_def split: option.splits)
  show ?thesis unfolding c using f by simp
qed

theorem submission_failure_rolls_back_witness:
  "navigated (cexec (cinit ''t'' None None) to_submitted) = None \<and>
   0 < awaiting (cexec (cinit ''t'' None None) to_submitted) \<and>
   phase (cexec (cinit ''t'' None None) to_submitted) = submitting \<and>
   phase (cexec (cinit ''t'' None None) (to_submitted @ [SubmissionSettled False]))
     = part3_questions \<and>
   partRecordings (cexec (cinit ''t'' None None) (to_submitted @ [SubmissionSettled False])) 1
     = Some ((new_recording 1 1000)\<lparr> chunks := [7], transcript := '' hello'' \<rparr>)"
proof -
  let ?s = "cexec (cinit ''t'' None None) to_submitted"
  have n: "navigated ?s = None" by code_simp
  have a: "0 < awaiting ?s" by code_simp
  have p: "phase ?s = submitting" by code_simp
  have r: "partRecordings ?s 1
      = Some ((new_recording 1 1000)\<lparr> chunks := [7], transcript := '' hello'' \<rparr>)"
    by code_simp
  have e: "cexec (cinit ''t'' None None) (to_submitted @ [SubmissionSettled False])
      = cstep ?s (SubmissionSettled False)"
    by (simp add: cexec_def)
  note t = submission_failure_rolls_back [OF refl n a]
  from t have "phase (cstep ?s (SubmissionSettled False)) = part3_questions"
    and "partRecordings (cstep ?s (SubmissionSettled False)) = partRecordings ?s"
    by blast+
  with n a p r show ?thesis unfolding e by simp
qed

text \<open>
  Claim C7.  The request is built from the recordings that \<open>handleCompleteTest\<close> holds.  When
  they hold a measured speaking duration \<open>d\<close> (seconds) for part 2, the request carries \<open>d\<close>
  and its fluency flag is true exactly when \<open>d < 80\<close>; at \<open>d = 80\<close> it is false.  The
  duration is measured when the two minutes of part 2 are up, as the milliseconds since the
  start of the speaking phase divided by 1000, so the flag is true exactly when fewer than
  80000 milliseconds were measured.  (Both numbers of the comparison are quotients of an
  integer by 1000 and 80: the comparison of the JavaScript numbers and of the reals agree.)
\<close>

theorem fluency_flag_iff_below_80_seconds:
  assumes "recs 2 = Some r" and "speakingDuration r = Some d"
  shows "sub_part2SpeakingDuration (assemble s recs) = d \<and>
    (sub_fluencyFlag (assemble s recs) \<longleftrightarrow> d < 80) \<and>
    (d = 80 \<longrightarrow> \<not> sub_fluencyFlag (assemble s recs)) \<and>
    last (requests (continueCompleteTest recs s)) = assemble s recs \<and>
    (\<forall>now s0. partRecordings s0 2 \<noteq> None \<longrightarrow>
       (fluencyFlag (partRecordings (handleTimeUp part2_speaking now s0))
          \<longleftrightarrow> now - part2SpeakingStartRef s0 < 80000))"
proof -
  have 1: "sub_part2SpeakingDuration (assemble s recs) = d"
    using assms by (simp add: assemble_def part2SpeakingDuration_def or_default_def)
  have 2: "sub_fluencyFlag (assemble s recs) \<longleftrightarrow> d < 80"
    using assms
    by (simp add: assemble_def fluencyFlag_def part2SpeakingDuration_def or_default_def
          PART2_MIN_SPEAKING_SECONDS_def)
  have 3: "last (requests (continueCompleteTest recs s)) = assemble s recs"
    by (simp add: continueCompleteTest_def)
  have 4: "fluencyFlag (partRecordings (handleTimeUp part2_speaking now s0))
          \<longleftrightarrow> now - part2SpeakingStartRef s0 < 80000"
    if "partRecordings s0 2 \<noteq> None" for now s0
    using that
    by (auto simp: fluencyFlag_def part2SpeakingDuration_def or_default_def setTimeout_def
          update_part_def PART2_MIN_SPEAKING_SECONDS_def)
  from 1 2 3 4 show ?thesis by simp
qed

theorem fluency_flag_iff_below_80_seconds_witness:
  "example_recordings 80 2 = Some ((new_recording 2 0)\<lparr> speakingDuration := Some 80 \<rparr>) \<and>
   \<not> sub_fluencyFlag (assemble (cinit ''t'' None None) (example_recordings 80)) \<and>
   sub_fluencyFlag (assemble (cinit ''t'' None None) (example_recordings (79999 / 1000)))"
proof -
  have a: "example_recordings d 2 = Some ((new_recording 2 0)\<lparr> speakingDuration := Some d \<rparr>)"
    for d by (simp add: example_recordings_def)
  have b: "speakingDuration ((new_recording 2 0)\<lparr> speakingDuration := Some d \<rparr>) = Some d"
    for d by simp
  from fluency_flag_iff_below_80_seconds
    [where recs = "example_recordings 80" and s = "cinit ''t'' None None", OF a [of 80] b [of 80]]
  have 1: "\<not> sub_fluencyFlag (assemble (cinit ''t'' None None) (example_recordings 80))"
    by simp
  from fluency_flag_iff_below_80_seconds
    [where recs = "example_recordings (79999 / 1000)" and s = "cinit ''t'' None None",
      OF a [of "79999 / 1000"] b [of "79999 / 1000"]]
  have 2: "sub_fluencyFlag (assemble (cinit ''t'' None None) (example_recordings (79999 / 1000)))"
    by simp
  from a [of 80] 1 2 show ?thesis by simp
qed

end
